theory Spec2Isabelle
  imports Complex_Main "HOL-Library.Multiset"
begin

section \<open>JavaScript containers\<close>

text \<open>
  A JavaScript \<open>Map\<close> keeps its keys in insertion order; \<open>set\<close> on a key that is
  present replaces the value in place, on a new key it appends. It is modelled as an
  association list. \<open>get\<close> of a missing key is \<open>undefined\<close>, here \<open>None\<close>.
\<close>

fun Map_set :: "'k \<Rightarrow> 'v \<Rightarrow> ('k \<times> 'v) list \<Rightarrow> ('k \<times> 'v) list" where
  "Map_set k v [] = [(k, v)]"
| "Map_set k v ((k', v') # m) = (if k' = k then (k, v) # m else (k', v') # Map_set k v m)"

definition Map_get :: "('k \<times> 'v) list \<Rightarrow> 'k \<Rightarrow> 'v option" where
  "Map_get m k = map_of m k"

definition Map_has :: "('k \<times> 'v) list \<Rightarrow> 'k \<Rightarrow> bool" where
  "Map_has m k = (map_of m k \<noteq> None)"

text \<open>A JavaScript \<open>Set\<close>, also insertion ordered: a list without repetitions.\<close>

definition Set_has :: "'a list \<Rightarrow> 'a \<Rightarrow> bool" where
  "Set_has s a = (a \<in> set s)"

definition Set_add :: "'a list \<Rightarrow> 'a \<Rightarrow> 'a list" where
  "Set_add s a = (if a \<in> set s then s else s @ [a])"

text \<open>\<open>new Set(array)\<close>: the elements of the array, each at its first occurrence.\<close>

definition Set_of :: "'a list \<Rightarrow> 'a list" where
  "Set_of xs = fold (\<lambda>a s. Set_add s a) xs []"

section \<open>graph.js: the weighted undirected graph\<close>

text \<open>
  Node identifiers are strings. Coordinates and the weight handed to \<open>addEdge\<close> are
  JavaScript numbers, taken here as real numbers; \<open>Math.hypot\<close> is the Euclidean norm
  and \<open>Math.round\<close> rounds to the nearest integer, halves upwards.
\<close>

type_synonym id = string

record node =
  node_id :: id
  node_x :: real
  node_y :: real
  node_label :: string
  node_type :: string

text \<open>An adjacency entry \<open>{ node, weight }\<close> is the pair (neighbour, weight).\<close>

type_synonym adj = "id \<times> int"

record graph =
  nodes :: "(id \<times> node) list"
  edges :: "(id \<times> adj list) list"

datatype error = NodeNotFound | TypeError

definition Graph_new :: graph where
  "Graph_new = \<lparr>nodes = [], edges = []\<rparr>"

definition Math_hypot :: "real \<Rightarrow> real \<Rightarrow> real" where
  "Math_hypot dx dy = sqrt (dx\<^sup>2 + dy\<^sup>2)"

text \<open>For evaluation: along an axis the norm is an absolute value.\<close>

lemma Math_hypot_code [code]:
  "Math_hypot dx dy = (if dx = 0 then \<bar>dy\<bar> else if dy = 0 then \<bar>dx\<bar> else Math_hypot dx dy)"
  by (simp add: Math_hypot_def)

definition Math_round :: "real \<Rightarrow> int" where
  "Math_round w = \<lfloor>w + 1 / 2\<rfloor>"

definition addNode :: "graph \<Rightarrow> id \<Rightarrow> real \<Rightarrow> real \<Rightarrow> string \<Rightarrow> string \<Rightarrow> graph" where
  "addNode g i x y label type =
     \<lparr>nodes = Map_set i \<lparr>node_id = i, node_x = x, node_y = y, node_label = label, node_type = type\<rparr> (nodes g),
      edges = (if \<not> Map_has (edges g) i then Map_set i [] (edges g) else edges g)\<rparr>"

text \<open>
  \<open>addEdge\<close> throws before it changes anything when an endpoint is not a node. The two
  \<open>push\<close>es act one after the other on the adjacency rows; a row that is missing
  (\<open>undefined.push\<close>) is a \<open>TypeError\<close>, which cannot happen for a graph made by
  \<open>addNode\<close>, since \<open>addNode\<close> creates the row.
\<close>

definition addEdge :: "graph \<Rightarrow> id \<Rightarrow> id \<Rightarrow> real option \<Rightarrow> error + graph" where
  "addEdge g fromId toId weight =
     (case (Map_get (nodes g) fromId, Map_get (nodes g) toId) of
        (Some a, Some b) \<Rightarrow>
          (let w = Math_round (case weight of
                                 None \<Rightarrow> Math_hypot (node_x b - node_x a) (node_y b - node_y a)
                               | Some w0 \<Rightarrow> w0)
           in case Map_get (edges g) fromId of
                None \<Rightarrow> Inl TypeError
              | Some row1 \<Rightarrow>
                  (let edges1 = Map_set fromId (row1 @ [(toId, w)]) (edges g)
                   in case Map_get edges1 toId of
                        None \<Rightarrow> Inl TypeError
                      | Some row2 \<Rightarrow> Inr (g\<lparr>edges := Map_set toId (row2 @ [(fromId, w)]) edges1\<rparr>)))
      | _ \<Rightarrow> Inl NodeNotFound)"

definition getNeighbors :: "graph \<Rightarrow> id \<Rightarrow> adj list" where
  "getNeighbors g i = (case Map_get (edges g) i of None \<Rightarrow> [] | Some row \<Rightarrow> row)"

definition getNode :: "graph \<Rightarrow> id \<Rightarrow> node option" where
  "getNode g i = Map_get (nodes g) i"

definition getAllNodes :: "graph \<Rightarrow> node list" where
  "getAllNodes g = map snd (nodes g)"

text \<open>\<open>heuristic\<close> reads \<open>.x\<close> of both looked-up nodes: a missing one is a \<open>TypeError\<close>.\<close>

definition heuristic :: "graph \<Rightarrow> id \<Rightarrow> id \<Rightarrow> error + real" where
  "heuristic g a b =
     (case (Map_get (nodes g) a, Map_get (nodes g) b) of
        (Some nodeA, Some nodeB) \<Rightarrow>
          Inr (Math_hypot (node_x nodeB - node_x nodeA) (node_y nodeB - node_y nodeA))
      | _ \<Rightarrow> Inl TypeError)"

text \<open>A sequence of construction calls, as \<open>createCityMap\<close> makes them; the first throw ends it.\<close>

datatype build_op =
    AddNode id real real string string
  | AddEdge id id "real option"

fun build :: "build_op list \<Rightarrow> graph \<Rightarrow> error + graph" where
  "build [] g = Inr g"
| "build (AddNode i x y label type # ops) g = build ops (addNode g i x y label type)"
| "build (AddEdge u v w # ops) g =
     (case addEdge g u v w of Inl e \<Rightarrow> Inl e | Inr g' \<Rightarrow> build ops g')"

text \<open>
  A path from \<open>u\<close> to \<open>t\<close> is the list of adjacency entries it follows (an entry names
  the next node and the weight of the edge taken, so parallel edges are told apart).
\<close>

fun is_path :: "graph \<Rightarrow> id \<Rightarrow> adj list \<Rightarrow> id \<Rightarrow> bool" where
  "is_path g u [] t = (u = t)"
| "is_path g u (e # es) t = (e \<in> set (getNeighbors g u) \<and> is_path g (fst e) es t)"

definition path_weight :: "adj list \<Rightarrow> int" where
  "path_weight p = sum_list (map snd p)"

section \<open>algorithms.js: the binary min-heap\<close>

text \<open>
  The heap is the array \<open>data\<close> of entries \<open>{ priority, node }\<close>, here pairs
  (priority, node). Priorities are JavaScript numbers: any linear order (for Dijkstra the
  doubles that hold an integer or an infinity, for A* the reals). \<open>_bubbleUp\<close> and
  \<open>_sinkDown\<close> are private and only called with an index inside the array; the model
  says nothing useful outside that range.
\<close>

definition swap :: "'a list \<Rightarrow> nat \<Rightarrow> nat \<Rightarrow> 'a list" where
  "swap xs i j = xs[i := xs ! j, j := xs ! i]"

function bubbleUp :: "('p::linorder \<times> 'a) list \<Rightarrow> nat \<Rightarrow> ('p \<times> 'a) list" where
  "bubbleUp data i =
     (if i > 0 then
        (let parent = (i - 1) div 2
         in if fst (data ! i) < fst (data ! parent)
            then bubbleUp (swap data i parent) parent
            else data)
      else data)"
  by pat_completeness auto
termination
  by (relation "measure (\<lambda>(data, i). i)") auto

definition sinkDown_smallest :: "('p::linorder \<times> 'a) list \<Rightarrow> nat \<Rightarrow> nat" where
  "sinkDown_smallest data i =
     (let n = length data;
          l = 2 * i + 1;
          r = 2 * i + 2;
          smallest = i;
          smallest = (if l < n \<and> fst (data ! l) < fst (data ! smallest) then l else smallest);
          smallest = (if r < n \<and> fst (data ! r) < fst (data ! smallest) then r else smallest)
      in smallest)"

lemma sinkDown_smallest_cases:
  "sinkDown_smallest data i = i
   \<or> (sinkDown_smallest data i = 2 * i + 1 \<and> 2 * i + 1 < length data)
   \<or> (sinkDown_smallest data i = 2 * i + 2 \<and> 2 * i + 2 < length data)"
  by (simp add: sinkDown_smallest_def Let_def)

lemma length_swap [simp]: "length (swap xs i j) = length xs"
  by (simp add: swap_def)

function sinkDown :: "('p::linorder \<times> 'a) list \<Rightarrow> nat \<Rightarrow> ('p \<times> 'a) list" where
  "sinkDown data i =
     (let smallest = sinkDown_smallest data i
      in if smallest \<noteq> i then sinkDown (swap data i smallest) smallest else data)"
  by pat_completeness auto
termination
proof (relation "measure (\<lambda>(data, i). length data - i)", goal_cases)
  case 1
  show ?case by simp
next
  case (2 data i x)
  then show ?case
    using sinkDown_smallest_cases [of data i] by auto
qed

declare bubbleUp.simps [simp del] sinkDown.simps [simp del]

definition push :: "('p::linorder \<times> 'a) list \<Rightarrow> 'p \<times> 'a \<Rightarrow> ('p \<times> 'a) list" where
  "push data item = bubbleUp (data @ [item]) (length (data @ [item]) - 1)"

text \<open>\<open>pop\<close> on an empty heap returns \<open>undefined\<close> (\<open>None\<close>) and leaves the array empty.\<close>

definition pop :: "('p::linorder \<times> 'a) list \<Rightarrow> ('p \<times> 'a) option \<times> ('p \<times> 'a) list" where
  "pop data =
     (case data of
        [] \<Rightarrow> (None, [])
      | top0 # _ \<Rightarrow>
          (let lst = last data; data1 = butlast data
           in if length data1 > 0 then (Some top0, sinkDown (data1[0 := lst]) 0)
              else (Some top0, data1)))"

definition heap_size :: "('p \<times> 'a) list \<Rightarrow> nat" where
  "heap_size data = length data"

subsection \<open>The heap as a multiset of entries\<close>

lemma mset_swap_heap: "i < length xs \<Longrightarrow> j < length xs \<Longrightarrow> mset (swap xs i j) = mset xs"
  unfolding swap_def by (simp add: mset_swap)

lemma bubbleUp_unfold:
  "bubbleUp data i =
     (if i > 0 \<and> fst (data ! i) < fst (data ! ((i - 1) div 2))
      then bubbleUp (swap data i ((i - 1) div 2)) ((i - 1) div 2) else data)"
  by (subst bubbleUp.simps) (simp add: Let_def)

lemma sinkDown_unfold:
  "sinkDown data i =
     (if sinkDown_smallest data i \<noteq> i
      then sinkDown (swap data i (sinkDown_smallest data i)) (sinkDown_smallest data i) else data)"
  by (subst sinkDown.simps) (simp add: Let_def)

lemma length_bubbleUp [simp]: "length (bubbleUp data i) = length data"
  by (induction data i rule: bubbleUp.induct) (subst bubbleUp.simps, simp add: Let_def)

lemma mset_bubbleUp: "i < length data \<Longrightarrow> mset (bubbleUp data i) = mset data"
proof (induction data i rule: bubbleUp.induct)
  case (1 data i)
  show ?case
  proof (cases "i > 0 \<and> fst (data ! i) < fst (data ! ((i - 1) div 2))")
    case True
    then have "mset (bubbleUp (swap data i ((i - 1) div 2)) ((i - 1) div 2)) = mset (swap data i ((i - 1) div 2))"
      using 1 by (intro "1.IH") auto
    moreover have "(i - 1) div 2 < length data" using "1.prems" by simp
    ultimately show ?thesis
      using True "1.prems" by (subst bubbleUp_unfold) (simp add: mset_swap_heap)
  next
    case False
    then show ?thesis by (subst bubbleUp_unfold) auto
  qed
qed

lemma length_sinkDown [simp]: "length (sinkDown data i) = length data"
  by (induction data i rule: sinkDown.induct) (subst sinkDown.simps, simp add: Let_def)

lemma mset_sinkDown: "mset (sinkDown data i) = mset data"
proof (induction data i rule: sinkDown.induct)
  case (1 data i)
  show ?case
  proof (cases "sinkDown_smallest data i = i")
    case True
    then show ?thesis by (subst sinkDown_unfold) simp
  next
    case False
    then have lt: "sinkDown_smallest data i < length data" "i < length data"
      using sinkDown_smallest_cases [of data i] by auto
    have "mset (sinkDown (swap data i (sinkDown_smallest data i)) (sinkDown_smallest data i))
          = mset (swap data i (sinkDown_smallest data i))"
      using False by (intro "1.IH") auto
    then show ?thesis
      using False lt by (subst sinkDown_unfold) (simp add: mset_swap_heap)
  qed
qed

lemma mset_push: "mset (push data item) = add_mset item (mset data)"
  by (simp add: push_def mset_bubbleUp)

lemma length_push [simp]: "length (push data item) = Suc (length data)"
  by (simp add: push_def)

lemma pop_empty [simp]: "pop [] = (None, [])"
  by (simp add: pop_def)

lemma pop_nonempty:
  assumes "data \<noteq> []"
  shows "fst (pop data) = Some (hd data)"
    and "add_mset (hd data) (mset (snd (pop data))) = mset data"
    and "Suc (length (snd (pop data))) = length data"
proof -
  obtain x xs where d: "data = x # xs" using assms by (cases data) auto
  show "fst (pop data) = Some (hd data)"
    by (simp add: d pop_def Let_def)
  show "add_mset (hd data) (mset (snd (pop data))) = mset data"
  proof (cases xs rule: rev_cases)
    case Nil
    then show ?thesis by (simp add: d pop_def)
  next
    case (snoc ys y)
    then show ?thesis by (simp add: d pop_def Let_def mset_sinkDown butlast_append)
  qed
  show "Suc (length (snd (pop data))) = length data"
    by (simp add: d pop_def Let_def)
qed

section \<open>algorithms.js: events and path reconstruction\<close>

text \<open>
  A number that is finite, \<open>Infinity\<close> or \<open>-Infinity\<close>, with the order of the numbers.
\<close>

datatype 'n num = Fin 'n | Infinity | NegInfinity

instantiation num :: (linorder) linorder
begin

definition less_eq_num :: "'a num \<Rightarrow> 'a num \<Rightarrow> bool" where
  "less_eq_num a b =
     (case a of
        NegInfinity \<Rightarrow> True
      | Fin x \<Rightarrow> (case b of NegInfinity \<Rightarrow> False | Fin y \<Rightarrow> x \<le> y | Infinity \<Rightarrow> True)
      | Infinity \<Rightarrow> (case b of Infinity \<Rightarrow> True | _ \<Rightarrow> False))"

definition less_num :: "'a num \<Rightarrow> 'a num \<Rightarrow> bool" where
  "less_num a b = (a \<le> b \<and> \<not> b \<le> a)"

instance
  by standard (auto simp: less_eq_num_def less_num_def split: num.splits)

end

lemma Fin_le_iff [simp]: "Fin a \<le> Fin b \<longleftrightarrow> a \<le> b"
  by (simp add: less_eq_num_def)

lemma Fin_less_iff [simp]: "Fin a < Fin b \<longleftrightarrow> a < b"
  by (auto simp: less_num_def less_eq_num_def)

lemma num_less_simps [simp]:
  "Fin x < Infinity" "\<not> Infinity < b" "\<not> a < NegInfinity" "NegInfinity < Fin y"
  "NegInfinity < Infinity" "\<not> Fin x < NegInfinity" "\<not> Infinity < Fin y"
  by (auto simp: less_num_def less_eq_num_def split: num.splits)

text \<open>
  Weights and distances are IEEE doubles that hold integers. Every integer of magnitude
  up to \<open>2^53\<close> is a double; above, the doubles are \<open>double_ulp\<close> apart: \<open>2\<close> from
  \<open>2^53\<close>, \<open>4\<close> from \<open>2^54\<close>, and so on. \<open>nearest_double\<close> rounds an integer to the
  nearest double, a half to the even significand, and to an infinity when that is beyond
  the largest double, \<open>2^1024 - 2^971\<close>.
\<close>

function double_ulp :: "int \<Rightarrow> int" where
  "double_ulp m = (if m < 2 ^ 53 then 1 else 2 * double_ulp (m div 2))"
  by pat_completeness auto
termination
  by (relation "measure nat") auto

definition round_half_even :: "int \<Rightarrow> int \<Rightarrow> int" where
  "round_half_even m u =
     (let q = m div u; r = m mod u
      in if 2 * r < u then q * u
         else if u < 2 * r then (q + 1) * u
         else if even q then q * u else (q + 1) * u)"

definition nearest_double :: "int \<Rightarrow> int num" where
  "nearest_double n =
     (let m = round_half_even \<bar>n\<bar> (double_ulp \<bar>n\<bar>)
      in if 2 ^ 1024 \<le> m then (if n < 0 then NegInfinity else Infinity)
         else Fin (if n < 0 then - m else m))"

text \<open>
  \<open>a + w\<close> for a distance \<open>a\<close> and a weight \<open>w\<close>: the sum of two doubles is their exact
  sum, rounded. A weight is finite, so an infinite distance stays as it is.
\<close>

fun js_add :: "int num \<Rightarrow> int \<Rightarrow> int num" where
  "js_add (Fin a) w = nearest_double (a + w)"
| "js_add Infinity w = Infinity"
| "js_add NegInfinity w = NegInfinity"

text \<open>
  \<open>a < m.get(k)\<close> for a finite \<open>a\<close>: a missing key gives \<open>undefined\<close>, which compares
  as \<open>NaN\<close>, so the test is false.
\<close>

fun lt_num :: "int \<Rightarrow> int num option \<Rightarrow> bool" where
  "lt_num a None = False"
| "lt_num a (Some Infinity) = True"
| "lt_num a (Some (Fin b)) = (a < b)"
| "lt_num a (Some NegInfinity) = False"

text \<open>The same test when the left side may be infinite.\<close>

fun num_lt :: "int num \<Rightarrow> int num option \<Rightarrow> bool" where
  "num_lt a None = False"
| "num_lt a (Some b) = (a < b)"

text \<open>
  The yielded objects. \<open>Visit node visited frontier distances\<close>: BFS and DFS set
  \<open>frontier\<close>, Dijkstra and A* set \<open>distances\<close>; an absent key is \<open>None\<close>.
  \<open>Done path visited totalDistance\<close>: \<open>totalDistance\<close> is absent for BFS and DFS, and
  \<open>undefined\<close> (also \<open>None\<close>) if the distance map has no entry.
\<close>

datatype event =
    Visit id "id list" "id list option" "(id \<times> int num) list option"
  | Done "id list" "id list" "int num option"

text \<open>
  What a generator does, driven to its end: the events it yields, and then it returns,
  throws, or never comes back from a \<open>next()\<close>.
\<close>

datatype ending = Returned | Threw error | Diverged

type_synonym run = "event list \<times> ending"

definition yield :: "event \<Rightarrow> run \<Rightarrow> run" where
  "yield ev r = (ev # fst r, snd r)"

text \<open>
  \<open>reconstructPath\<close> walks \<open>parent\<close> until it reads \<open>null\<close> (\<open>Some None\<close>). On a key
  that is missing the source reads \<open>undefined\<close>, which is not \<open>null\<close>, and from then on
  prepends \<open>undefined\<close> for ever; on a cycle it also runs for ever. Not returning is \<open>None\<close>.
\<close>

partial_function (option) reconstructPath_loop ::
  "(id \<times> id option) list \<Rightarrow> id option \<Rightarrow> id list \<Rightarrow> id list option" where
  "reconstructPath_loop parent current path =
     (case current of
        None \<Rightarrow> Some path
      | Some c \<Rightarrow>
          (case Map_get parent c of
             None \<Rightarrow> None
           | Some nxt \<Rightarrow> reconstructPath_loop parent nxt (c # path)))"

declare reconstructPath_loop.simps [code]

definition reconstructPath :: "(id \<times> id option) list \<Rightarrow> id \<Rightarrow> id list option" where
  "reconstructPath parent endId = reconstructPath_loop parent (Some endId) []"

definition finish :: "(id \<times> id option) list \<Rightarrow> id \<Rightarrow> id list \<Rightarrow> int num option \<Rightarrow> run" where
  "finish parent endId visited totalDistance =
     (case reconstructPath parent endId of
        None \<Rightarrow> ([], Diverged)
      | Some path \<Rightarrow> ([Done path visited totalDistance], Returned))"

text \<open>Every identifier that occurs as a neighbour in some adjacency row.\<close>

definition all_ids :: "graph \<Rightarrow> id set" where
  "all_ids g = set (concat (map (\<lambda>row. map fst (snd row)) (edges g)))"

lemma getNeighbors_all_ids: "e \<in> set (getNeighbors g c) \<Longrightarrow> fst e \<in> all_ids g"
proof -
  assume h: "e \<in> set (getNeighbors g c)"
  then obtain row where r: "map_of (edges g) c = Some row" and e: "e \<in> set row"
    by (cases "map_of (edges g) c") (auto simp: getNeighbors_def Map_get_def)
  from r have "(c, row) \<in> set (edges g)" by (rule map_of_SomeD)
  with e show ?thesis by (force simp: all_ids_def)
qed

lemma finite_all_ids [simp]: "finite (all_ids g)"
  by (simp add: all_ids_def)

section \<open>Basic facts about the containers\<close>

lemma map_of_Map_set: "map_of (Map_set k v m) = (map_of m)(k \<mapsto> v)"
  by (induction m) (auto simp: fun_eq_iff)

lemma Map_get_Map_set: "Map_get (Map_set k v m) k' = (if k' = k then Some v else Map_get m k')"
  by (simp add: Map_get_def map_of_Map_set)

lemma Map_has_Map_set: "Map_has (Map_set k v m) k' = (k' = k \<or> Map_has m k')"
  by (simp add: Map_has_def map_of_Map_set)

lemma fst_set_Map_set: "fst ` set (Map_set k v m) = insert k (fst ` set m)"
proof -
  have "dom (map_of (Map_set k v m)) = insert k (dom (map_of m))"
    by (simp add: map_of_Map_set)
  then show ?thesis by (simp add: dom_map_of_conv_image_fst)
qed

lemma Map_has_iff: "Map_has m k \<longleftrightarrow> k \<in> fst ` set m"
  by (simp add: Map_has_def map_of_eq_None_iff)

lemma set_Set_add: "set (Set_add s a) = insert a (set s)"
  by (auto simp: Set_add_def)

lemma distinct_Set_add: "distinct s \<Longrightarrow> distinct (Set_add s a)"
  by (simp add: Set_add_def)

section \<open>algorithms.js: the four searches\<close>

subsection \<open>BFS\<close>

text \<open>The \<open>for\<close> loop over the neighbours of \<open>current\<close>.\<close>

fun bfs_for :: "id \<Rightarrow> adj list \<Rightarrow> id list \<times> (id \<times> id option) list \<times> id list
                 \<Rightarrow> id list \<times> (id \<times> id option) list \<times> id list" where
  "bfs_for current [] st = st"
| "bfs_for current ((neighbor, weight) # rest) (visited, parent, queue) =
     (if \<not> Set_has visited neighbor
      then bfs_for current rest
             (Set_add visited neighbor, Map_set neighbor (Some current) parent, queue @ [neighbor])
      else bfs_for current rest (visited, parent, queue))"

lemma bfs_for_visited:
  "bfs_for c nbrs (v, p, q) = (v', p', q') \<Longrightarrow>
     set v \<subseteq> set v' \<and> set v' \<subseteq> set v \<union> fst ` set nbrs
     \<and> length q' + card (set v) = length q + card (set v')"
proof (induction nbrs arbitrary: v p q)
  case Nil
  then show ?case by simp
next
  case (Cons e rest)
  obtain n w where e: "e = (n, w)" by (cases e)
  show ?case
  proof (cases "n \<in> set v")
    case True
    then show ?thesis using Cons.IH [of v p q] Cons.prems by (auto simp: e Set_has_def)
  next
    case False
    then have "bfs_for c rest (Set_add v n, Map_set n (Some c) p, q @ [n]) = (v', p', q')"
      using Cons.prems by (simp add: e Set_has_def)
    from Cons.IH [OF this] False show ?thesis
      by (auto simp: e set_Set_add)
  qed
qed

lemma bfs_for_measure:
  assumes b: "bfs_for c (getNeighbors g c) (v, p, q) = (v', p', q')"
  shows "card (all_ids g - set v') < card (all_ids g - set v)
         \<or> (card (all_ids g - set v') = card (all_ids g - set v) \<and> length q' = length q)"
proof -
  note f = bfs_for_visited [OF b]
  have sub: "set v' \<subseteq> set v \<union> all_ids g"
    using f getNeighbors_all_ids [of _ g c] by auto
  show ?thesis
  proof (cases "set v' = set v")
    case True
    then show ?thesis using f by simp
  next
    case False
    then have "all_ids g - set v' \<subset> all_ids g - set v"
      using f sub by auto
    then have "card (all_ids g - set v') < card (all_ids g - set v)"
      by (intro psubset_card_mono) auto
    then show ?thesis by simp
  qed
qed

function bfs_loop :: "graph \<Rightarrow> id \<Rightarrow> id list \<times> id list \<times> (id \<times> id option) list \<Rightarrow> run" where
  "bfs_loop g endId (queue, visited, parent) =
     (case queue of
        [] \<Rightarrow> ([Done [] visited None], Returned)
      | current # queue1 \<Rightarrow>
          yield (Visit current visited (Some (Set_of queue1)) None)
            (if current = endId then finish parent endId visited None
             else (case bfs_for current (getNeighbors g current) (visited, parent, queue1) of
                     (visited', parent', queue') \<Rightarrow> bfs_loop g endId (queue', visited', parent'))))"
  by pat_completeness auto
termination
proof (relation "measures [\<lambda>(g, e, q, v, p). card (all_ids g - set v), \<lambda>(g, e, q, v, p). length q]",
       goal_cases)
  case 1
  show ?case by simp
next
  case (2 g endId queue visited parent current queue1 visited' y parent' queue')
  then have "bfs_for current (getNeighbors g current) (visited, parent, queue1) = (visited', parent', queue')"
    by simp
  from bfs_for_measure [OF this] 2 show ?case by auto
qed

declare bfs_loop.simps [simp del]

definition bfs :: "graph \<Rightarrow> id \<Rightarrow> id \<Rightarrow> run" where
  "bfs g startId endId =
     (let visited = Set_add [] startId;
          parent = Map_set startId None [];
          queue = [startId]
      in bfs_loop g endId (queue, visited, parent))"

subsection \<open>DFS\<close>

text \<open>
  The \<open>for\<close> loop runs \<open>i\<close> from \<open>neighbors.length - 1\<close> down to \<open>0\<close>; the counter
  here is \<open>i + 1\<close>. The stack is the array itself: \<open>push\<close> appends, \<open>pop\<close> takes the
  last element.
\<close>

fun dfs_for :: "id list \<Rightarrow> id \<Rightarrow> adj list \<Rightarrow> nat \<Rightarrow> (id \<times> id option) list \<times> id list
                 \<Rightarrow> (id \<times> id option) list \<times> id list" where
  "dfs_for visited current neighbors 0 st = st"
| "dfs_for visited current neighbors (Suc i) (parent, stack) =
     (let neighbor = fst (neighbors ! i)
      in if \<not> Set_has visited neighbor
         then dfs_for visited current neighbors i
                (Map_set neighbor (Some current) parent, stack @ [neighbor])
         else dfs_for visited current neighbors i (parent, stack))"

lemma dfs_for_stack:
  "dfs_for v c nbrs k (p, s) = (p', s') \<Longrightarrow> k \<le> length nbrs \<Longrightarrow>
     set s' \<subseteq> set s \<union> fst ` set nbrs"
proof (induction k arbitrary: p s)
  case 0
  then show ?case by simp
next
  case (Suc k)
  have in_nbrs: "fst (nbrs ! k) \<in> fst ` set nbrs" using Suc.prems by simp
  show ?case
  proof (cases "Set_has v (fst (nbrs ! k))")
    case True
    then show ?thesis using Suc.IH [of p s] Suc.prems by (simp add: Let_def)
  next
    case False
    then have "dfs_for v c nbrs k (Map_set (fst (nbrs ! k)) (Some c) p, s @ [fst (nbrs ! k)]) = (p', s')"
      using Suc.prems by (simp add: Let_def)
    from Suc.IH [OF this] Suc.prems in_nbrs show ?thesis by auto
  qed
qed

lemma dfs_skip_measure:
  "card ((all_ids g \<union> set (butlast stack)) - set visited)
           \<le> card ((all_ids g \<union> set stack) - set visited)"
proof -
  have "set (butlast stack) \<subseteq> set stack" by (auto dest: in_set_butlastD)
  then show ?thesis
    by (intro card_mono) auto
qed

lemma dfs_visit_measure:
  assumes ne: "stack \<noteq> []" and nv: "last stack \<notin> set visited"
    and d: "dfs_for (Set_add visited (last stack)) (last stack) (getNeighbors g (last stack))
              (length (getNeighbors g (last stack))) (parent, butlast stack) = (parent', stack')"
  shows "card ((all_ids g \<union> set stack') - set (Set_add visited (last stack)))
           < card ((all_ids g \<union> set stack) - set visited)"
proof -
  have "set stack' \<subseteq> set (butlast stack) \<union> fst ` set (getNeighbors g (last stack))"
    using dfs_for_stack [OF d] by simp
  moreover have "set (butlast stack) \<subseteq> set stack" by (auto dest: in_set_butlastD)
  moreover have "fst ` set (getNeighbors g (last stack)) \<subseteq> all_ids g"
    using getNeighbors_all_ids by auto
  ultimately have sub: "set stack' \<subseteq> set stack \<union> all_ids g" by blast
  have "last stack \<in> set stack" using ne by simp
  then have "(all_ids g \<union> set stack') - set (Set_add visited (last stack))
               \<subset> (all_ids g \<union> set stack) - set visited"
    using sub nv by (auto simp: set_Set_add)
  then show ?thesis by (intro psubset_card_mono) auto
qed

function dfs_loop :: "graph \<Rightarrow> id \<Rightarrow> id list \<times> id list \<times> (id \<times> id option) list \<Rightarrow> run" where
  "dfs_loop g endId (stack, visited, parent) =
     (if stack = [] then ([Done [] visited None], Returned)
      else
        (let current = last stack; stack1 = butlast stack
         in if Set_has visited current then dfs_loop g endId (stack1, visited, parent)
            else
              (let visited1 = Set_add visited current
               in yield (Visit current visited1 (Some (Set_of stack1)) None)
                    (if current = endId then finish parent endId visited1 None
                     else
                       (let neighbors = getNeighbors g current
                        in case dfs_for visited1 current neighbors (length neighbors) (parent, stack1) of
                             (parent', stack') \<Rightarrow> dfs_loop g endId (stack', visited1, parent'))))))"
  by pat_completeness auto
termination
proof (relation "measures [\<lambda>(g, e, s, v, p). card ((all_ids g \<union> set s) - set v), \<lambda>(g, e, s, v, p). length s]",
       goal_cases)
  case 1
  show ?case by simp
next
  case (2 g endId stack visited parent current stack1)
  then show ?case
    using dfs_skip_measure [of g stack visited] by auto
next
  case (3 g endId stack visited parent current stack1 visited1 neighbors parent' stack')
  then have "dfs_for (Set_add visited (last stack)) (last stack) (getNeighbors g (last stack))
              (length (getNeighbors g (last stack))) (parent, butlast stack) = (parent', stack')"
    by simp
  from dfs_visit_measure [OF _ _ this] 3 show ?case by (simp add: Set_has_def)
qed

declare dfs_loop.simps [simp del]

definition dfs :: "graph \<Rightarrow> id \<Rightarrow> id \<Rightarrow> run" where
  "dfs g startId endId =
     (let visited = [];
          parent = Map_set startId None [];
          stack = [startId]
      in dfs_loop g endId (stack, visited, parent))"

subsection \<open>Dijkstra\<close>

text \<open>
  \<open>dist\<close> holds doubles: \<open>Infinity\<close>, \<open>0\<close> for the start, and the sums that passed
  the test \<open>newDist < dist.get(neighbor)\<close>; the same sums are the priorities in the heap.
  \<open>newDist = currentDist + weight\<close> is the sum of two doubles, \<open>js_add\<close>.
\<close>

type_synonym dstate = "(id \<times> int num) list \<times> (id \<times> id option) list \<times> (int num \<times> id) list"

text \<open>The relaxation loop over the neighbours of \<open>current\<close>, popped with priority \<open>currentDist\<close>.\<close>

fun dijkstra_for :: "id list \<Rightarrow> int num \<Rightarrow> id \<Rightarrow> adj list \<Rightarrow> dstate \<Rightarrow> dstate" where
  "dijkstra_for visited currentDist current [] st = st"
| "dijkstra_for visited currentDist current ((neighbor, weight) # rest) (dists, parent, heap) =
     (if Set_has visited neighbor then dijkstra_for visited currentDist current rest (dists, parent, heap)
      else
        (let newDist = js_add currentDist weight
         in if num_lt newDist (Map_get dists neighbor)
            then dijkstra_for visited currentDist current rest
                   (Map_set neighbor newDist dists,
                    Map_set neighbor (Some current) parent,
                    push heap (newDist, neighbor))
            else dijkstra_for visited currentDist current rest (dists, parent, heap)))"

lemma set_push: "set (push data item) = insert item (set data)"
proof -
  have "set_mset (mset (push data item)) = set_mset (add_mset item (mset data))"
    by (simp only: mset_push)
  then show ?thesis by simp
qed

lemma dijkstra_for_heap:
  "dijkstra_for v cd c nbrs (d, p, h) = (d', p', h') \<Longrightarrow>
     snd ` set h' \<subseteq> snd ` set h \<union> fst ` set nbrs"
proof (induction nbrs arbitrary: d p h)
  case Nil
  then show ?case by simp
next
  case (Cons e rest)
  obtain n w where e: "e = (n, w)" by (cases e)
  show ?case
  proof (cases "\<not> Set_has v n \<and> num_lt (js_add cd w) (Map_get d n)")
    case True
    then have "dijkstra_for v cd c rest
                 (Map_set n (js_add cd w) d, Map_set n (Some c) p, push h (js_add cd w, n)) = (d', p', h')"
      using Cons.prems by (simp add: e Let_def)
    from Cons.IH [OF this] show ?thesis by (auto simp: e set_push)
  next
    case False
    then have "dijkstra_for v cd c rest (d, p, h) = (d', p', h')"
      using Cons.prems by (auto simp: e Let_def split: if_splits)
    from Cons.IH [OF this] show ?thesis by auto
  qed
qed

lemma set_pop:
  assumes "data \<noteq> []"
  shows "set data = insert (hd data) (set (snd (pop data)))"
proof -
  have "set_mset (mset data) = set_mset (add_mset (hd data) (mset (snd (pop data))))"
    by (simp only: pop_nonempty(2) [OF assms])
  then show ?thesis by simp
qed

lemma pop_cases:
  assumes p: "pop data = (r, data1)"
  shows "(data = [] \<and> r = None \<and> data1 = [])
     \<or> (data \<noteq> [] \<and> r = Some (hd data) \<and> set data = insert (hd data) (set data1)
         \<and> Suc (length data1) = length data)"
proof (cases "data = []")
  case True
  then show ?thesis using p by simp
next
  case False
  have "r = Some (hd data)" using pop_nonempty(1) [OF False] p by simp
  moreover have "set data = insert (hd data) (set data1)" using set_pop [OF False] p by simp
  moreover have "Suc (length data1) = length data" using pop_nonempty(3) [OF False] p by simp
  ultimately show ?thesis using False by blast
qed

lemma heap_skip_measure:
  assumes "pop heap = (Some (cd, c), heap1)"
  shows "card ((all_ids g \<union> snd ` set heap1) - set visited)
           \<le> card ((all_ids g \<union> snd ` set heap) - set visited)
         \<and> length heap1 < length heap"
proof -
  from pop_cases [OF assms] have s: "set heap = insert (hd heap) (set heap1)"
    and l: "Suc (length heap1) = length heap" by auto
  from s have "snd ` set heap1 \<subseteq> snd ` set heap" by auto
  then have "card ((all_ids g \<union> snd ` set heap1) - set visited)
           \<le> card ((all_ids g \<union> snd ` set heap) - set visited)"
    by (intro card_mono) auto
  then show ?thesis using l by simp
qed

lemma heap_visit_measure:
  assumes po: "pop heap = (Some (cd, c), heap1)" and nv: "c \<notin> set visited"
    and sub: "snd ` set heap' \<subseteq> snd ` set heap1 \<union> fst ` set (getNeighbors g c)"
  shows "card ((all_ids g \<union> snd ` set heap') - set (Set_add visited c))
           < card ((all_ids g \<union> snd ` set heap) - set visited)"
proof -
  from pop_cases [OF po] have s: "set heap = insert (cd, c) (set heap1)" by auto
  have a: "fst ` set (getNeighbors g c) \<subseteq> all_ids g"
    using getNeighbors_all_ids by auto
  have "set heap1 \<subseteq> set heap" unfolding s by (rule subset_insertI)
  then have b: "snd ` set heap1 \<subseteq> snd ` set heap" by (rule image_mono)
  have "snd ` set heap1 \<union> fst ` set (getNeighbors g c) \<subseteq> snd ` set heap \<union> all_ids g"
    using b a by (rule Un_mono)
  with sub have sub': "snd ` set heap' \<subseteq> snd ` set heap \<union> all_ids g"
    by (rule order_trans)
  have "(cd, c) \<in> set heap" unfolding s by simp
  then have "c \<in> snd ` set heap" by force
  then have "(all_ids g \<union> snd ` set heap') - set (Set_add visited c)
               \<subset> (all_ids g \<union> snd ` set heap) - set visited"
    using sub' nv by (auto simp: set_Set_add)
  then show ?thesis by (intro psubset_card_mono) auto
qed

text \<open>
  The loop runs while \<open>heap.size > 0\<close>, so \<open>pop\<close> never returns \<open>undefined\<close> there;
  destructuring \<open>undefined\<close> would be a \<open>TypeError\<close>.
\<close>

function dijkstra_loop ::
  "graph \<Rightarrow> id \<Rightarrow> (int num \<times> id) list \<times> id list \<times> (id \<times> int num) list \<times> (id \<times> id option) list
     \<Rightarrow> run" where
  "dijkstra_loop g endId (heap, visited, dists, parent) =
     (if heap_size heap > 0 then
        (case pop heap of
           (None, heap1) \<Rightarrow> ([], Threw TypeError)
         | (Some (currentDist, current), heap1) \<Rightarrow>
             if Set_has visited current then dijkstra_loop g endId (heap1, visited, dists, parent)
             else
               (let visited1 = Set_add visited current
                in yield (Visit current visited1 None (Some dists))
                     (if current = endId then finish parent endId visited1 (Map_get dists endId)
                      else
                        (case dijkstra_for visited1 currentDist current (getNeighbors g current)
                                (dists, parent, heap1) of
                           (dists', parent', heap') \<Rightarrow>
                             dijkstra_loop g endId (heap', visited1, dists', parent')))))
      else ([Done [] visited (Some Infinity)], Returned))"
  by pat_completeness auto
termination
proof (relation "measures [\<lambda>(g, e, h, v, d, p). card ((all_ids g \<union> snd ` set h) - set v),
                           \<lambda>(g, e, h, v, d, p). length h]", goal_cases)
  case 1
  show ?case by simp
next
  case (2 g endId heap visited dists parent x heap1 y currentDist current)
  then have "pop heap = (Some (currentDist, current), heap1)" by simp
  from heap_skip_measure [OF this, of g visited] show ?case by auto
next
  case (3 g endId heap visited dists parent x heap1 y currentDist current visited1 dists' w parent' heap')
  then have po: "pop heap = (Some (currentDist, current), heap1)" by simp
  from 3 have v1: "visited1 = Set_add visited current" by simp
  from 3 have nv: "current \<notin> set visited" by (simp add: Set_has_def)
  from 3 have "dijkstra_for visited1 currentDist current (getNeighbors g current)
                 (dists, parent, heap1) = (dists', parent', heap')" by simp
  note dijkstra_for_heap [OF this]
  from heap_visit_measure [OF po nv this]
  have "card ((all_ids g \<union> snd ` set heap') - set visited1)
           < card ((all_ids g \<union> snd ` set heap) - set visited)"
    unfolding v1 .
  then show ?case by simp
qed

declare dijkstra_loop.simps [simp del]

definition dijkstra :: "graph \<Rightarrow> id \<Rightarrow> id \<Rightarrow> run" where
  "dijkstra g startId endId =
     (let dists = fold (\<lambda>node dists. Map_set (node_id node) Infinity dists) (getAllNodes g) [];
          dists = Map_set startId (Fin 0) dists;
          parent = Map_set startId None [];
          heap = push [] (Fin 0, startId)
      in dijkstra_loop g endId (heap, [], dists, parent))"

subsection \<open>A*\<close>

text \<open>
  \<open>gScore\<close> holds integers or \<open>Infinity\<close>, \<open>fScore\<close> reals or \<open>Infinity\<close>. The heap
  priority is \<open>fScore.get(x)\<close> read straight after \<open>fScore.set(x, f)\<close>, that is \<open>f\<close>.
  \<open>tentativeG = gScore.get(current) + weight\<close> is \<open>NaN\<close> when the entry is missing and
  \<open>Infinity\<close> when it is \<open>Infinity\<close>; neither is less than anything, so only a finite
  \<open>tentativeG\<close> can pass the test. \<open>heuristic\<close> may throw, which ends the generator.
  The scores are added exactly here: \<open>fScore\<close> is not an integer, and the rounding of
  doubles is not modelled for A*.
\<close>

type_synonym astate =
  "(id \<times> int num) list \<times> (id \<times> real num) list \<times> (id \<times> id option) list \<times> (real \<times> id) list"

fun aStar_for :: "graph \<Rightarrow> id \<Rightarrow> id list \<Rightarrow> id \<Rightarrow> adj list \<Rightarrow> astate \<Rightarrow> error + astate" where
  "aStar_for g endId visited current [] st = Inr st"
| "aStar_for g endId visited current ((neighbor, weight) # rest) (gScore, fScore, parent, heap) =
     (if Set_has visited neighbor
      then aStar_for g endId visited current rest (gScore, fScore, parent, heap)
      else
        (case Map_get gScore current of
           Some (Fin gc) \<Rightarrow>
             (let tentativeG = gc + weight
              in if lt_num tentativeG (Map_get gScore neighbor)
                 then (case heuristic g neighbor endId of
                         Inl e \<Rightarrow> Inl e
                       | Inr h \<Rightarrow>
                           aStar_for g endId visited current rest
                             (Map_set neighbor (Fin tentativeG) gScore,
                              Map_set neighbor (Fin (real_of_int tentativeG + h)) fScore,
                              Map_set neighbor (Some current) parent,
                              push heap (real_of_int tentativeG + h, neighbor)))
                 else aStar_for g endId visited current rest (gScore, fScore, parent, heap))
         | _ \<Rightarrow> aStar_for g endId visited current rest (gScore, fScore, parent, heap)))"

lemma aStar_for_heap:
  "aStar_for g e v c nbrs (gs, fs, p, h) = Inr (gs', fs', p', h') \<Longrightarrow>
     snd ` set h' \<subseteq> snd ` set h \<union> fst ` set nbrs"
proof (induction nbrs arbitrary: gs fs p h)
  case Nil
  then show ?case by simp
next
  case (Cons a rest)
  obtain n w where a: "a = (n, w)" by (cases a)
  from Cons.prems
  consider (skip) "aStar_for g e v c rest (gs, fs, p, h) = Inr (gs', fs', p', h')"
    | (relax) t r where "aStar_for g e v c rest
          (Map_set n (Fin t) gs, Map_set n (Fin r) fs, Map_set n (Some c) p,
           push h (r, n)) = Inr (gs', fs', p', h')"
    by (auto simp: a Let_def split: if_splits option.splits num.splits sum.splits)
  then show ?case
  proof cases
    case skip
    from Cons.IH [OF this] show ?thesis by auto
  next
    case relax
    from Cons.IH [OF this] show ?thesis by (auto simp: a set_push)
  qed
qed

function aStar_loop ::
  "graph \<Rightarrow> id \<Rightarrow> (real \<times> id) list \<times> id list \<times> (id \<times> int num) list \<times> (id \<times> real num) list
     \<times> (id \<times> id option) list \<Rightarrow> run" where
  "aStar_loop g endId (heap, visited, gScore, fScore, parent) =
     (if heap_size heap > 0 then
        (case pop heap of
           (None, heap1) \<Rightarrow> ([], Threw TypeError)
         | (Some (priority, current), heap1) \<Rightarrow>
             if Set_has visited current then aStar_loop g endId (heap1, visited, gScore, fScore, parent)
             else
               (let visited1 = Set_add visited current
                in yield (Visit current visited1 None (Some gScore))
                     (if current = endId then finish parent endId visited1 (Map_get gScore endId)
                      else
                        (case aStar_for g endId visited1 current (getNeighbors g current)
                                (gScore, fScore, parent, heap1) of
                           Inl e \<Rightarrow> ([], Threw e)
                         | Inr (gScore', fScore', parent', heap') \<Rightarrow>
                             aStar_loop g endId (heap', visited1, gScore', fScore', parent')))))
      else ([Done [] visited (Some Infinity)], Returned))"
  by pat_completeness auto
termination
proof (relation "measures [\<lambda>(g, e, h, v, gs, fs, p). card ((all_ids g \<union> snd ` set h) - set v),
                           \<lambda>(g, e, h, v, gs, fs, p). length h]", goal_cases)
  case 1
  show ?case by simp
next
  case (2 g endId heap visited gScore fScore parent x heap1 y priority current)
  then have "pop heap = (Some (priority, current), heap1)" by simp
  from heap_skip_measure [OF this, of g visited] show ?case by auto
next
  case (3 g endId heap visited gScore fScore parent x heap1 y priority current visited1 z gScore' w
          fScore' u parent' heap')
  then have po: "pop heap = (Some (priority, current), heap1)" by simp
  from 3 have v1: "visited1 = Set_add visited current" by simp
  from 3 have nv: "current \<notin> set visited" by (simp add: Set_has_def)
  from 3 have "aStar_for g endId visited1 current (getNeighbors g current)
                 (gScore, fScore, parent, heap1) = Inr (gScore', fScore', parent', heap')" by simp
  note aStar_for_heap [OF this]
  from heap_visit_measure [OF po nv this]
  have "card ((all_ids g \<union> snd ` set heap') - set visited1)
           < card ((all_ids g \<union> snd ` set heap) - set visited)"
    unfolding v1 .
  then show ?case by simp
qed

declare aStar_loop.simps [simp del]

definition aStar :: "graph \<Rightarrow> id \<Rightarrow> id \<Rightarrow> run" where
  "aStar g startId endId =
     (let gScore = fold (\<lambda>node gScore. Map_set (node_id node) Infinity gScore) (getAllNodes g) [];
          fScore = fold (\<lambda>node fScore. Map_set (node_id node) Infinity fScore) (getAllNodes g) [];
          gScore = Map_set startId (Fin 0) gScore
      in case heuristic g startId endId of
           Inl e \<Rightarrow> ([], Threw e)
         | Inr h \<Rightarrow>
             (let fScore = Map_set startId (Fin h) fScore;
                  parent = Map_set startId None [];
                  heap = push [] (h, startId)
              in aStar_loop g endId (heap, [], gScore, fScore, parent)))"

subsection \<open>The registry\<close>

datatype algorithm = Bfs | Dfs | Dijkstra | Astar

fun algo_name :: "algorithm \<Rightarrow> string" where
  "algo_name Bfs = ''Breadth-First Search (BFS)''"
| "algo_name Dfs = ''Depth-First Search (DFS)''"
| "algo_name Dijkstra = ''Dijkstra's Algorithm''"
| "algo_name Astar = ''A* Search''"

fun algo_fn :: "algorithm \<Rightarrow> graph \<Rightarrow> id \<Rightarrow> id \<Rightarrow> run" where
  "algo_fn Bfs = bfs"
| "algo_fn Dfs = dfs"
| "algo_fn Dijkstra = dijkstra"
| "algo_fn Astar = aStar"

fun algo_weighted :: "algorithm \<Rightarrow> bool" where
  "algo_weighted Bfs = False"
| "algo_weighted Dfs = False"
| "algo_weighted Dijkstra = True"
| "algo_weighted Astar = True"

section \<open>app.js: the multi-leg run\<close>

text \<open>
  \<open>PathfinderApp._run\<close> is modelled for a run that no reset interrupts (\<open>isRunning\<close>
  stays true): timers and pauses only delay the steps, so they vanish. What the run does
  to the outside is the sequence of its effects: the generators it constructs, the status
  lines and the statistics it shows (the elapsed time, which is wall-clock time, is left
  out, and so are the drawing calls). Node labels stand for the names in the status lines.
\<close>

datatype status =
    SelectStart
  | AddStop
  | ConsecutiveDuplicate string
  | Running string nat
  | LegStatus nat string string
  | NoPathFound string string
  | TripComplete nat "int num"

datatype effect =
    Status status
  | Stats nat nat "int num"
  | Construct algorithm id id

text \<open>
  How the run ends: it returns, or an exception escapes (from \<open>getNode(..).label\<close> on an
  unknown node, or out of the generator), or the generator never comes back.
\<close>

datatype outcome = Completed | Uncaught error | Never

type_synonym trip = "effect list \<times> outcome"

definition emit :: "effect \<Rightarrow> trip \<Rightarrow> trip" where
  "emit e t = (e # fst t, snd t)"

fun num_add :: "int num \<Rightarrow> int num \<Rightarrow> int num" where
  "num_add (Fin a) (Fin b) = Fin (a + b)"
| "num_add NegInfinity (Fin b) = NegInfinity"
| "num_add (Fin a) NegInfinity = NegInfinity"
| "num_add NegInfinity NegInfinity = NegInfinity"
| "num_add _ _ = Infinity"

text \<open>\<open>_calcPathDist\<close>: the weight of the first adjacency entry for each consecutive pair.\<close>

fun calcPathDist :: "graph \<Rightarrow> id list \<Rightarrow> int \<Rightarrow> int" where
  "calcPathDist g (a # b # rest) tot =
     (case find (\<lambda>n. fst n = b) (getNeighbors g a) of
        Some edge \<Rightarrow> calcPathDist g (b # rest) (tot + snd edge)
      | None \<Rightarrow> calcPathDist g (b # rest) tot)"
| "calcPathDist g _ tot = tot"

text \<open>\<open>legResult.totalDistance || this._calcPathDist(legResult.path)\<close>: \<open>undefined\<close> and \<open>0\<close> are falsy.\<close>

fun legDist :: "graph \<Rightarrow> id list \<Rightarrow> int num option \<Rightarrow> int num" where
  "legDist g path None = Fin (calcPathDist g path 0)"
| "legDist g path (Some Infinity) = Infinity"
| "legDist g path (Some NegInfinity) = NegInfinity"
| "legDist g path (Some (Fin d)) = (if d \<noteq> 0 then Fin d else Fin (calcPathDist g path 0))"

text \<open>
  What the \<open>step\<close> closure resolves the leg's promise with: the first \<open>done\<close> event, or
  \<open>null\<close> when the generator finishes without one.
\<close>

datatype leg_result = Resolved event | ResolvedNull | LegUncaught error | LegNever

text \<open>
  \<open>step\<close>, called again after every \<open>visit\<close>: the state is \<open>totalVisited\<close> and
  \<open>allVisited\<close>; \<open>leg\<close> and \<open>totalDistance\<close> do not change during a leg.
\<close>

fun step :: "nat \<Rightarrow> int num \<Rightarrow> event list \<Rightarrow> ending \<Rightarrow> nat \<times> id list
               \<Rightarrow> effect list \<times> (nat \<times> id list) \<times> leg_result" where
  "step leg totalDistance [] Returned st = ([], st, ResolvedNull)"
| "step leg totalDistance [] (Threw e) st = ([], st, LegUncaught e)"
| "step leg totalDistance [] Diverged st = ([], st, LegNever)"
| "step leg totalDistance (Visit node visited frontier distances # evs) r (totalVisited, allVisited) =
     (let totalVisited = totalVisited + 1;
          allVisited = fold (\<lambda>v s. Set_add s v) visited allVisited
      in case step leg totalDistance evs r (totalVisited, allVisited) of
           (effs, st, res) \<Rightarrow> (Stats totalVisited (leg + 1) totalDistance # effs, st, res))"
| "step leg totalDistance (Done path visited td # evs) r st = ([], st, Resolved (Done path visited td))"

definition finish_trip :: "nat \<Rightarrow> nat \<Rightarrow> int num \<Rightarrow> trip" where
  "finish_trip n totalVisited totalDistance =
     ([Stats totalVisited n totalDistance, Status (TripComplete n totalDistance)], Completed)"

text \<open>The loop over the legs, from leg \<open>leg\<close> on; \<open>route.length - 1\<close> legs in all.\<close>

function run_legs :: "graph \<Rightarrow> algorithm \<Rightarrow> id list \<Rightarrow> nat \<Rightarrow> nat \<times> int num \<times> id list \<Rightarrow> trip" where
  "run_legs g algo route leg (totalVisited, totalDistance, allVisited) =
     (if leg < length route - 1 then
        (let fromId = route ! leg;
             toId = route ! (leg + 1)
         in emit (Construct algo fromId toId)
              (case (getNode g fromId, getNode g toId) of
                 (Some fromNode, Some toNode) \<Rightarrow>
                   emit (Status (LegStatus (leg + 1) (node_label fromNode) (node_label toNode)))
                     (case algo_fn algo g fromId toId of
                        (evs, r) \<Rightarrow>
                          (case step leg totalDistance evs r (totalVisited, allVisited) of
                             (effs, (totalVisited', allVisited'), res) \<Rightarrow>
                               (case res of
                                  Resolved (Done path visited td) \<Rightarrow>
                                    if length path > 0 then
                                      (let totalDistance' = num_add totalDistance (legDist g path td)
                                       in case run_legs g algo route (leg + 1)
                                                 (totalVisited', totalDistance', allVisited') of
                                            (effs', out) \<Rightarrow>
                                              (effs @ Stats totalVisited' (leg + 1) totalDistance' # effs', out))
                                    else
                                      (effs @ [Status (NoPathFound (node_label fromNode) (node_label toNode))],
                                       Completed)
                                | Resolved (Visit _ _ _ _) \<Rightarrow> (effs, Never)
                                | ResolvedNull \<Rightarrow>
                                    (case finish_trip (length route - 1) totalVisited' totalDistance of
                                       (effs', out) \<Rightarrow> (effs @ effs', out))
                                | LegUncaught e \<Rightarrow> (effs, Uncaught e)
                                | LegNever \<Rightarrow> (effs, Never))))
               | _ \<Rightarrow> ([], Uncaught TypeError)))
      else finish_trip (length route - 1) totalVisited totalDistance)"
  by pat_completeness auto
termination
  by (relation "measure (\<lambda>(g, algo, route, leg, st). length route - leg)") auto

declare run_legs.simps [simp del]

text \<open>The first \<open>i\<close> with \<open>route[i] === route[i + 1]\<close>.\<close>

fun first_duplicate :: "id list \<Rightarrow> id option" where
  "first_duplicate (a # b # rest) = (if a = b then Some a else first_duplicate (b # rest))"
| "first_duplicate _ = None"

text \<open>
  \<open>startSelect.value\<close> is a string, empty when nothing is chosen; a waypoint's \<open>nodeId\<close>
  is \<open>null\<close> or a string, and \<open>filter(Boolean)\<close> drops \<open>null\<close> and the empty string.
\<close>

definition PathfinderApp_run :: "graph \<Rightarrow> string \<Rightarrow> id option list \<Rightarrow> algorithm \<Rightarrow> trip" where
  "PathfinderApp_run g startId waypoints algoKey =
     (let stopIds = concat (map (\<lambda>w. case w of None \<Rightarrow> [] | Some i \<Rightarrow> if i = [] then [] else [i]) waypoints)
      in if startId = [] then ([Status SelectStart], Completed)
         else if length stopIds = 0 then ([Status AddStop], Completed)
         else
           (let route = startId # stopIds
            in case first_duplicate route of
                 Some d \<Rightarrow>
                   (case getNode g d of
                      None \<Rightarrow> ([], Uncaught TypeError)
                    | Some n \<Rightarrow> ([Status (ConsecutiveDuplicate (node_label n))], Completed))
               | None \<Rightarrow>
                   emit (Status (Running (algo_name algoKey) (length route - 1)))
                     (run_legs g algoKey route 0 (0, Fin 0, []))))"

section \<open>addNode: what it leaves alone\<close>

lemma getNeighbors_addNode: "getNeighbors (addNode g i x y l t) j = getNeighbors g j"
  by (simp add: getNeighbors_def addNode_def Map_get_def Map_has_def map_of_Map_set)

lemma getNode_addNode:
  "getNode (addNode g i x y l t) j =
     (if j = i then Some \<lparr>node_id = i, node_x = x, node_y = y, node_label = l, node_type = t\<rparr>
      else getNode g j)"
  by (simp add: getNode_def addNode_def Map_get_Map_set)

text \<open>
  C10. \<open>addNode\<close> on an identifier that is already a node of the graph replaces the node's
  attributes (coordinates, label, type) by the new ones, keeps every other node, and
  leaves the adjacency structure as it was: the same rows in the same order, so the
  node's own neighbour list and every other node's are unchanged.
\<close>

theorem addNode_existing_frame:
  "Map_has (nodes g) i \<and> Map_has (edges g) i \<longrightarrow>
     edges (addNode g i x y l t) = edges g
     \<and> (\<forall>j. getNeighbors (addNode g i x y l t) j = getNeighbors g j)
     \<and> getNode (addNode g i x y l t) i
         = Some \<lparr>node_id = i, node_x = x, node_y = y, node_label = l, node_type = t\<rparr>
     \<and> (\<forall>j. j \<noteq> i \<longrightarrow> getNode (addNode g i x y l t) j = getNode g j)
     \<and> map fst (nodes (addNode g i x y l t)) = map fst (nodes g)"
proof (intro impI conjI allI)
  assume h: "Map_has (nodes g) i \<and> Map_has (edges g) i"
  show "edges (addNode g i x y l t) = edges g"
    using h by (simp add: addNode_def)
  show "getNeighbors (addNode g i x y l t) j = getNeighbors g j" for j
    by (rule getNeighbors_addNode)
  show "getNode (addNode g i x y l t) i
          = Some \<lparr>node_id = i, node_x = x, node_y = y, node_label = l, node_type = t\<rparr>"
    by (simp add: getNode_addNode)
  show "j \<noteq> i \<Longrightarrow> getNode (addNode g i x y l t) j = getNode g j" for j
    by (simp add: getNode_addNode)
  have "Map_has m k \<Longrightarrow> map fst (Map_set k v m) = map fst m" for m :: "(id \<times> node) list" and k v
    by (induction m) (auto simp: Map_has_def)
  then show "map fst (nodes (addNode g i x y l t)) = map fst (nodes g)"
    using h by (simp add: addNode_def)
qed

theorem addNode_existing_frame_witness:
  "Map_has (nodes (addNode Graph_new ''A'' 0 0 ''a'' ''default'')) ''A''
   \<and> Map_has (edges (addNode Graph_new ''A'' 0 0 ''a'' ''default'')) ''A''
   \<and> edges (addNode (addNode Graph_new ''A'' 0 0 ''a'' ''default'') ''A'' 3 4 ''b'' ''park'')
       = edges (addNode Graph_new ''A'' 0 0 ''a'' ''default'')
   \<and> getNode (addNode (addNode Graph_new ''A'' 0 0 ''a'' ''default'') ''A'' 3 4 ''b'' ''park'') ''A''
       = Some \<lparr>node_id = ''A'', node_x = 3, node_y = 4, node_label = ''b'', node_type = ''park''\<rparr>"
proof -
  have h: "Map_has (nodes (addNode Graph_new ''A'' 0 0 ''a'' ''default'')) ''A''
           \<and> Map_has (edges (addNode Graph_new ''A'' 0 0 ''a'' ''default'')) ''A''"
    by (simp add: addNode_def Graph_new_def Map_has_def)
  show ?thesis
    using h addNode_existing_frame [of "addNode Graph_new ''A'' 0 0 ''a'' ''default''" "''A''" 3 4 "''b''" "''park''"]
    by blast
qed

section \<open>addEdge: weights\<close>

text \<open>The weights stored for direction \<open>(u, v)\<close>, in insertion order.\<close>

definition weights :: "graph \<Rightarrow> id \<Rightarrow> id \<Rightarrow> int list" where
  "weights g u v = map snd (filter (\<lambda>e. fst e = v) (getNeighbors g u))"

text \<open>The weight \<open>addEdge\<close> stores, when both endpoints are nodes.\<close>

definition stored_weight :: "graph \<Rightarrow> id \<Rightarrow> id \<Rightarrow> real option \<Rightarrow> int" where
  "stored_weight g u v weight =
     (case weight of
        Some w0 \<Rightarrow> Math_round w0
      | None \<Rightarrow> (case heuristic g u v of Inr h \<Rightarrow> Math_round h | Inl _ \<Rightarrow> 0))"

lemma addEdge_Inr:
  assumes "addEdge g u v w = Inr g'"
  shows "nodes g' = nodes g"
    and "getNeighbors g' x = getNeighbors g x
           @ (if x = u then [(v, stored_weight g u v w)] else [])
           @ (if x = v then [(u, stored_weight g u v w)] else [])"
    and "Map_has (nodes g) u" and "Map_has (nodes g) v"
proof -
  obtain a b where a: "Map_get (nodes g) u = Some a" and b: "Map_get (nodes g) v = Some b"
    using assms by (auto simp: addEdge_def split: option.splits)
  define ww where "ww = Math_round (case w of None \<Rightarrow> Math_hypot (node_x b - node_x a) (node_y b - node_y a)
                               | Some w0 \<Rightarrow> w0)"
  have ww: "ww = stored_weight g u v w"
    by (simp add: ww_def stored_weight_def heuristic_def a b split: option.splits)
  obtain row1 where r1: "Map_get (edges g) u = Some row1"
    using assms a b by (auto simp: addEdge_def Let_def split: option.splits)
  define edges1 where "edges1 = Map_set u (row1 @ [(v, ww)]) (edges g)"
  obtain row2 where r2: "Map_get edges1 v = Some row2"
    using assms a b r1 by (auto simp: addEdge_def Let_def edges1_def ww_def split: option.splits)
  have g': "g' = g\<lparr>edges := Map_set v (row2 @ [(u, ww)]) edges1\<rparr>"
    using assms a b r1 r2 by (simp add: addEdge_def Let_def edges1_def [symmetric] ww_def [symmetric])
  show "nodes g' = nodes g" by (simp add: g')
  show "Map_has (nodes g) u" "Map_has (nodes g) v"
    using a b by (simp_all add: Map_has_def Map_get_def)
  have e1: "Map_get edges1 z = (if z = u then Some (row1 @ [(v, ww)]) else Map_get (edges g) z)" for z
    by (simp add: edges1_def Map_get_Map_set)
  have nb: "getNeighbors g' z = (if z = v then row2 @ [(u, ww)] else if z = u then row1 @ [(v, ww)]
                                 else getNeighbors g z)" for z
    by (simp add: g' getNeighbors_def Map_get_Map_set e1)
  have n1: "getNeighbors g u = row1" by (simp add: getNeighbors_def r1)
  have n2: "row2 = (if v = u then row1 @ [(v, ww)] else getNeighbors g v)"
    using r2 by (auto simp: e1 getNeighbors_def split: if_splits)
  show "getNeighbors g' x = getNeighbors g x
           @ (if x = u then [(v, stored_weight g u v w)] else [])
           @ (if x = v then [(u, stored_weight g u v w)] else [])"
    unfolding ww [symmetric] nb n2 using n1 by simp
qed



lemma Math_round_nonneg: "- 1 / 2 \<le> w \<Longrightarrow> 0 \<le> Math_round w"
  by (simp add: Math_round_def)

lemma Math_hypot_nonneg: "0 \<le> Math_hypot dx dy"
  by (simp add: Math_hypot_def)

lemma stored_weight_nonneg:
  assumes "\<And>w0. w = Some w0 \<Longrightarrow> - 1 / 2 \<le> w0"
  shows "0 \<le> stored_weight g u v w"
proof (cases w)
  case None
  show ?thesis
  proof (cases "heuristic g u v")
    case (Inl e)
    then show ?thesis by (simp add: stored_weight_def None)
  next
    case (Inr h)
    then have "0 \<le> h" by (auto simp: heuristic_def Math_hypot_nonneg split: option.splits)
    then have "0 \<le> Math_round h" by (intro Math_round_nonneg) simp
    then show ?thesis by (simp add: stored_weight_def None Inr)
  qed
next
  case (Some w0)
  then show ?thesis using assms [OF Some] by (simp add: stored_weight_def Math_round_nonneg)
qed

text \<open>The explicit weights a construction sequence hands to \<open>addEdge\<close>.\<close>

fun given_weights :: "build_op list \<Rightarrow> real list" where
  "given_weights [] = []"
| "given_weights (AddNode i x y l t # ops) = given_weights ops"
| "given_weights (AddEdge u v None # ops) = given_weights ops"
| "given_weights (AddEdge u v (Some w) # ops) = w # given_weights ops"

definition symmetric :: "graph \<Rightarrow> bool" where
  "symmetric g = (\<forall>u v. weights g u v = weights g v u)"

definition nonneg_weights :: "graph \<Rightarrow> bool" where
  "nonneg_weights g = (\<forall>u. \<forall>e \<in> set (getNeighbors g u). 0 \<le> snd e)"


lemma build_nonneg:
  "build ops g0 = Inr g \<Longrightarrow> nonneg_weights g0 \<Longrightarrow> \<forall>w \<in> set (given_weights ops). - 1 / 2 \<le> w
     \<Longrightarrow> nonneg_weights g"
proof (induction ops g0 rule: build.induct)
  case (1 g0)
  then show ?case by simp
next
  case (2 i x y label type ops g0)
  then show ?case by (simp add: nonneg_weights_def getNeighbors_addNode)
next
  case (3 u v w ops g0)
  then obtain g1 where g1: "addEdge g0 u v w = Inr g1" and b: "build ops g1 = Inr g"
    by (auto split: sum.splits)
  have "0 \<le> stored_weight g0 u v w"
    using "3.prems"(3) by (intro stored_weight_nonneg) (cases w; auto)
  then have "nonneg_weights g1"
    using "3.prems"(2) by (auto simp: nonneg_weights_def addEdge_Inr(2) [OF g1])
  moreover have "\<forall>w \<in> set (given_weights ops). - 1 / 2 \<le> w"
    using "3.prems"(3) by (cases w) auto
  ultimately show ?case using 3 g1 b by simp
qed

lemma Graph_new_neighbors [simp]: "getNeighbors Graph_new u = []"
  by (simp add: getNeighbors_def Graph_new_def Map_get_def)




definition exampleOps :: "build_op list" where
  "exampleOps = [AddNode ''A'' 0 0 ''A'' ''default'', AddNode ''B'' 10 0 ''B'' ''default'',
     AddNode ''C'' 0 10 ''C'' ''default'',
     AddEdge ''A'' ''B'' (Some 10), AddEdge ''A'' ''C'' (Some 10), AddEdge ''B'' ''C'' (Some 5)]"

definition exampleGraph :: graph where
  "exampleGraph =
     \<lparr>nodes = [(''A'', \<lparr>node_id = ''A'', node_x = 0, node_y = 0, node_label = ''A'', node_type = ''default''\<rparr>),
               (''B'', \<lparr>node_id = ''B'', node_x = 10, node_y = 0, node_label = ''B'', node_type = ''default''\<rparr>),
               (''C'', \<lparr>node_id = ''C'', node_x = 0, node_y = 10, node_label = ''C'', node_type = ''default''\<rparr>)],
      edges = [(''A'', [(''B'', 10), (''C'', 10)]), (''B'', [(''A'', 10), (''C'', 5)]),
               (''C'', [(''A'', 10), (''B'', 5)])]\<rparr>"

lemma build_exampleOps: "build exampleOps Graph_new = Inr exampleGraph"
  by code_simp


section \<open>heuristic against rounded default weights\<close>

text \<open>
  Five nodes on a line, \<open>S\<close> at \<open>-10\<close>, \<open>M\<close> at \<open>0\<close>, \<open>X1\<close> at \<open>1.4\<close>, \<open>X2\<close> at \<open>2.8\<close>
  and \<open>T\<close> at \<open>4.2\<close>, and five edges, each with the default weight.
\<close>

definition lineOps :: "build_op list" where
  "lineOps = [AddNode ''S'' (-10) 0 ''S'' ''default'', AddNode ''M'' 0 0 ''M'' ''default'',
              AddNode ''X1'' (14 / 10) 0 ''X1'' ''default'', AddNode ''X2'' (28 / 10) 0 ''X2'' ''default'',
              AddNode ''T'' (42 / 10) 0 ''T'' ''default'',
              AddEdge ''S'' ''M'' None, AddEdge ''S'' ''T'' None, AddEdge ''M'' ''X1'' None,
              AddEdge ''X1'' ''X2'' None, AddEdge ''X2'' ''T'' None]"

definition lineGraph :: graph where
  "lineGraph =
     \<lparr>nodes = [(''S'', \<lparr>node_id = ''S'', node_x = -10, node_y = 0, node_label = ''S'', node_type = ''default''\<rparr>),
               (''M'', \<lparr>node_id = ''M'', node_x = 0, node_y = 0, node_label = ''M'', node_type = ''default''\<rparr>),
               (''X1'', \<lparr>node_id = ''X1'', node_x = 14 / 10, node_y = 0, node_label = ''X1'', node_type = ''default''\<rparr>),
               (''X2'', \<lparr>node_id = ''X2'', node_x = 28 / 10, node_y = 0, node_label = ''X2'', node_type = ''default''\<rparr>),
               (''T'', \<lparr>node_id = ''T'', node_x = 42 / 10, node_y = 0, node_label = ''T'', node_type = ''default''\<rparr>)],
      edges = [(''S'', [(''M'', 10), (''T'', 14)]),
               (''M'', [(''S'', 10), (''X1'', 1)]),
               (''X1'', [(''M'', 1), (''X2'', 1)]),
               (''X2'', [(''X1'', 1), (''T'', 1)]),
               (''T'', [(''S'', 14), (''X2'', 1)])]\<rparr>"

text \<open>
  C2. The heuristic is not admissible on a graph whose edges all have the default weight.
  On the five nodes above \<open>heuristic(M, T)\<close> is \<open>4.2\<close>, while the path \<open>M, X1, X2, T\<close>
  weighs \<open>3\<close>: each of its edges is \<open>1.4\<close> long and is stored as \<open>1\<close>. A* from \<open>S\<close>
  to \<open>T\<close> therefore takes \<open>T\<close> (\<open>f = 14\<close>) from the heap before \<open>M\<close> (\<open>f = 14.2\<close>) and
  returns the direct edge of weight \<open>14\<close>, although the path through \<open>M\<close> weighs \<open>13\<close>,
  which is what Dijkstra returns.
\<close>

theorem heuristic_exceeds_default_weight_path:
  "build lineOps Graph_new = Inr lineGraph
   \<and> given_weights lineOps = []
   \<and> heuristic lineGraph ''M'' ''T'' = Inr (21 / 5)
   \<and> is_path lineGraph ''M'' [(''X1'', 1), (''X2'', 1), (''T'', 1)] ''T''
   \<and> real_of_int (path_weight [(''X1'', 1), (''X2'', 1), (''T'', 1)]) < 21 / 5
   \<and> aStar lineGraph ''S'' ''T''
       = ([Visit ''S'' [''S''] None
             (Some [(''S'', Fin 0), (''M'', Infinity), (''X1'', Infinity), (''X2'', Infinity), (''T'', Infinity)]),
           Visit ''T'' [''S'', ''T''] None
             (Some [(''S'', Fin 0), (''M'', Fin 10), (''X1'', Infinity), (''X2'', Infinity), (''T'', Fin 14)]),
           Done [''S'', ''T''] [''S'', ''T''] (Some (Fin 14))], Returned)
   \<and> is_path lineGraph ''S'' [(''M'', 10), (''X1'', 1), (''X2'', 1), (''T'', 1)] ''T''
   \<and> path_weight [(''M'', 10), (''X1'', 1), (''X2'', 1), (''T'', 1)] = 13
   \<and> last (fst (dijkstra lineGraph ''S'' ''T''))
       = Done [''S'', ''M'', ''X1'', ''X2'', ''T''] [''S'', ''M'', ''X1'', ''X2'', ''T''] (Some (Fin 13))"
proof (intro conjI)
  show "build lineOps Graph_new = Inr lineGraph" by code_simp
  show "given_weights lineOps = []" by code_simp
  show "heuristic lineGraph ''M'' ''T'' = Inr (21 / 5)" by code_simp
  show "is_path lineGraph ''M'' [(''X1'', 1), (''X2'', 1), (''T'', 1)] ''T''" by code_simp
  show "real_of_int (path_weight [(''X1'', 1), (''X2'', 1), (''T'', 1)]) < 21 / 5"
    by (simp add: path_weight_def)
  show "aStar lineGraph ''S'' ''T''
       = ([Visit ''S'' [''S''] None
             (Some [(''S'', Fin 0), (''M'', Infinity), (''X1'', Infinity), (''X2'', Infinity), (''T'', Infinity)]),
           Visit ''T'' [''S'', ''T''] None
             (Some [(''S'', Fin 0), (''M'', Fin 10), (''X1'', Infinity), (''X2'', Infinity), (''T'', Fin 14)]),
           Done [''S'', ''T''] [''S'', ''T''] (Some (Fin 14))], Returned)"
    by code_simp
  show "is_path lineGraph ''S'' [(''M'', 10), (''X1'', 1), (''X2'', 1), (''T'', 1)] ''T''" by code_simp
  show "path_weight [(''M'', 10), (''X1'', 1), (''X2'', 1), (''T'', 1)] = 13"
    by (simp add: path_weight_def)
  show "last (fst (dijkstra lineGraph ''S'' ''T''))
       = Done [''S'', ''M'', ''X1'', ''X2'', ''T''] [''S'', ''M'', ''X1'', ''X2'', ''T''] (Some (Fin 13))"
    by code_simp
qed

section \<open>Unknown start or end identifiers\<close>

lemma snd_yield [simp]: "snd (yield ev r) = snd r"
  by (simp add: yield_def)

lemma fst_yield [simp]: "fst (yield ev r) = ev # fst r"
  by (simp add: yield_def)

lemma finish_no_throw: "snd (finish parent endId visited td) \<noteq> Threw err"
  by (simp add: finish_def split: option.splits)

subsection \<open>One iteration of each loop\<close>

lemma bfs_loop_Nil: "bfs_loop g endId ([], visited, parent) = ([Done [] visited None], Returned)"
  by (simp add: bfs_loop.simps)

lemma bfs_loop_Cons:
  "bfs_loop g endId (current # queue1, visited, parent) =
     yield (Visit current visited (Some (Set_of queue1)) None)
       (if current = endId then finish parent endId visited None
        else (case bfs_for current (getNeighbors g current) (visited, parent, queue1) of
                (visited', parent', queue') \<Rightarrow> bfs_loop g endId (queue', visited', parent')))"
  by (simp add: bfs_loop.simps [of g endId "current # queue1"])

lemma dfs_loop_Nil: "dfs_loop g endId ([], visited, parent) = ([Done [] visited None], Returned)"
  by (simp add: dfs_loop.simps)

lemma dfs_loop_snoc:
  "dfs_loop g endId (stack1 @ [current], visited, parent) =
     (if Set_has visited current then dfs_loop g endId (stack1, visited, parent)
      else yield (Visit current (Set_add visited current) (Some (Set_of stack1)) None)
             (if current = endId then finish parent endId (Set_add visited current) None
              else (case dfs_for (Set_add visited current) current (getNeighbors g current)
                           (length (getNeighbors g current)) (parent, stack1) of
                      (parent', stack') \<Rightarrow> dfs_loop g endId (stack', Set_add visited current, parent'))))"
  by (simp add: dfs_loop.simps [of g endId "stack1 @ [current]"] Let_def)

lemma dijkstra_loop_Nil:
  "dijkstra_loop g endId ([], visited, dists, parent) = ([Done [] visited (Some Infinity)], Returned)"
  by (simp add: dijkstra_loop.simps heap_size_def)

lemma dijkstra_loop_pop:
  assumes "heap \<noteq> []" "pop heap = (Some (currentDist, current), heap1)"
  shows "dijkstra_loop g endId (heap, visited, dists, parent) =
     (if Set_has visited current then dijkstra_loop g endId (heap1, visited, dists, parent)
      else yield (Visit current (Set_add visited current) None (Some dists))
             (if current = endId then finish parent endId (Set_add visited current) (Map_get dists endId)
              else (case dijkstra_for (Set_add visited current) currentDist current
                           (getNeighbors g current) (dists, parent, heap1) of
                      (dists', parent', heap') \<Rightarrow>
                        dijkstra_loop g endId (heap', Set_add visited current, dists', parent'))))"
  using assms by (simp add: dijkstra_loop.simps [of g endId heap] heap_size_def Let_def)

lemma pop_nonempty_ex:
  assumes "heap \<noteq> []"
  obtains cd c heap1 where "pop heap = (Some (cd, c), heap1)"
proof -
  obtain r heap1 where po: "pop heap = (r, heap1)" by (cases "pop heap") auto
  from pop_cases [OF po] assms have "r = Some (hd heap)" by auto
  with po that [of "fst (hd heap)" "snd (hd heap)" heap1] show ?thesis by simp
qed

subsection \<open>The three unchecked searches never throw\<close>

lemma bfs_loop_no_throw: "snd (bfs_loop g endId st) \<noteq> Threw err"
proof (induction g endId st rule: bfs_loop.induct)
  case (1 g endId queue visited parent)
  show ?case
  proof (cases queue)
    case Nil
    then show ?thesis by (simp add: bfs_loop_Nil)
  next
    case (Cons current queue1)
    show ?thesis
    proof (cases "current = endId")
      case True
      then show ?thesis unfolding Cons bfs_loop_Cons by (simp add: finish_no_throw)
    next
      case False
      obtain v' p' q' where f: "bfs_for current (getNeighbors g current) (visited, parent, queue1) = (v', p', q')"
        by (cases "bfs_for current (getNeighbors g current) (visited, parent, queue1)") auto
      from "1.IH" [OF Cons False f [symmetric] refl] show ?thesis
        unfolding Cons bfs_loop_Cons by (simp add: False f)
    qed
  qed
qed

lemma dfs_loop_no_throw: "snd (dfs_loop g endId st) \<noteq> Threw err"
proof (induction g endId st rule: dfs_loop.induct)
  case (1 g endId stack visited parent)
  show ?case
  proof (cases stack rule: rev_cases)
    case Nil
    then show ?thesis by (simp add: dfs_loop_Nil)
  next
    case (snoc stack1 current)
    then have ne: "stack \<noteq> []" and l: "last stack = current" and bl: "butlast stack = stack1" by auto
    show ?thesis
    proof (cases "Set_has visited current")
      case True
      from "1.IH"(1) [OF ne refl refl] True show ?thesis
        unfolding snoc dfs_loop_snoc by simp
    next
      case nv: False
      show ?thesis
      proof (cases "current = endId")
        case True
        with nv show ?thesis unfolding snoc dfs_loop_snoc by (simp add: finish_no_throw)
      next
        case False
        obtain p' s' where f: "dfs_for (Set_add visited current) current
            (getNeighbors g current) (length (getNeighbors g current)) (parent, stack1) = (p', s')"
          by (cases "dfs_for (Set_add visited current) current
            (getNeighbors g current) (length (getNeighbors g current)) (parent, stack1)") auto
        have "snd (dfs_loop g endId (s', Set_add visited current, p')) \<noteq> Threw err"
          using "1.IH"(2) [OF ne refl refl _ refl _ refl, of p' s'] nv False f
          by (simp add: l bl)
        then show ?thesis unfolding snoc dfs_loop_snoc by (simp add: nv False f)
      qed
    qed
  qed
qed

lemma dijkstra_loop_no_throw: "snd (dijkstra_loop g endId st) \<noteq> Threw err"
proof (induction g endId st rule: dijkstra_loop.induct)
  case (1 g endId heap visited dists parent)
  show ?case
  proof (cases "heap = []")
    case True
    then show ?thesis by (simp add: dijkstra_loop_Nil)
  next
    case ne: False
    then obtain cd c heap1 where po: "pop heap = (Some (cd, c), heap1)" by (rule pop_nonempty_ex)
    have hs: "heap_size heap > 0" using ne by (simp add: heap_size_def)
    note step = dijkstra_loop_pop [OF ne po, of g endId visited dists parent]
    show ?thesis
    proof (cases "Set_has visited c")
      case True
      from "1.IH"(1) [OF hs po [symmetric] refl refl True] show ?thesis
        unfolding step by (simp add: True)
    next
      case nv: False
      show ?thesis
      proof (cases "c = endId")
        case True
        with nv show ?thesis unfolding step by (simp add: finish_no_throw)
      next
        case False
        obtain d' p' h' where f: "dijkstra_for (Set_add visited c) cd c (getNeighbors g c)
            (dists, parent, heap1) = (d', p', h')"
          by (cases "dijkstra_for (Set_add visited c) cd c (getNeighbors g c) (dists, parent, heap1)") auto
        from "1.IH"(2) [OF hs po [symmetric] refl refl nv refl False f [symmetric] refl] show ?thesis
          unfolding step by (simp add: nv False f)
      qed
    qed
  qed
qed

lemma push_empty [simp]: "push [] item = [item]"
  by (simp add: push_def bubbleUp_unfold)

lemma pop_single [simp]: "pop [item] = (Some item, [])"
  by (simp add: pop_def)

lemma Set_of_Nil [simp]: "Set_of [] = []"
  by (simp add: Set_of_def)

lemma bfs_first_event:
  "\<exists>evs r. bfs g s e = (Visit s [s] (Some []) None # evs, r) \<and> (\<forall>err. r \<noteq> Threw err)"
proof -
  have b: "bfs g s e = bfs_loop g e ([s], [s], [(s, None)])"
    by (simp add: bfs_def Set_add_def)
  have "\<forall>err. snd (bfs g s e) \<noteq> Threw err"
    unfolding b by (simp add: bfs_loop_no_throw)
  moreover have "\<exists>evs. fst (bfs g s e) = Visit s [s] (Some []) None # evs"
    unfolding b bfs_loop_Cons by simp
  ultimately show ?thesis by (metis prod.collapse)
qed

lemma dfs_first_event:
  "\<exists>evs r. dfs g s e = (Visit s [s] (Some []) None # evs, r) \<and> (\<forall>err. r \<noteq> Threw err)"
proof -
  have b: "dfs g s e = dfs_loop g e ([] @ [s], [], [(s, None)])"
    by (simp add: dfs_def)
  have "\<forall>err. snd (dfs g s e) \<noteq> Threw err"
    unfolding b by (simp add: dfs_loop_no_throw)
  moreover have "\<exists>evs. fst (dfs g s e) = Visit s [s] (Some []) None # evs"
    unfolding b dfs_loop_snoc by (simp add: Set_has_def Set_add_def)
  ultimately show ?thesis by (metis prod.collapse)
qed

lemma dijkstra_first_event:
  "\<exists>evs r d. dijkstra g s e = (Visit s [s] None (Some d) # evs, r) \<and> (\<forall>err. r \<noteq> Threw err)"
proof -
  obtain d where b: "dijkstra g s e = dijkstra_loop g e ([(Fin 0, s)], [], d, [(s, None)])"
    by (simp add: dijkstra_def Let_def)
  have "\<forall>err. snd (dijkstra g s e) \<noteq> Threw err"
    unfolding b by (simp add: dijkstra_loop_no_throw)
  moreover have "\<exists>evs. fst (dijkstra g s e) = Visit s [s] None (Some d) # evs"
    unfolding b by (subst dijkstra_loop_pop [of _ "Fin 0" s "[]"]) (simp_all add: Set_has_def Set_add_def)
  ultimately show ?thesis by (metis prod.collapse)
qed

lemma aStar_unknown:
  "getNode g s = None \<or> getNode g e = None \<Longrightarrow> aStar g s e = ([], Threw TypeError)"
  by (auto simp: aStar_def Let_def heuristic_def getNode_def split: option.splits)

text \<open>
  C3, as amended. BFS, DFS and Dijkstra do not check \<open>startId\<close> or \<open>endId\<close>: for every
  graph and every pair of identifiers, nodes of the graph or not, they never throw, and
  their first event is a Visit of \<open>startId\<close>. Only A* fails when \<open>startId\<close> or \<open>endId\<close>
  is not a node: \<open>heuristic\<close> raises a \<open>TypeError\<close> before any event is produced.
\<close>

theorem unknown_node_handling:
  "(\<exists>evs r. bfs g s e = (Visit s [s] (Some []) None # evs, r) \<and> (\<forall>err. r \<noteq> Threw err))
   \<and> (\<exists>evs r. dfs g s e = (Visit s [s] (Some []) None # evs, r) \<and> (\<forall>err. r \<noteq> Threw err))
   \<and> (\<exists>evs r d. dijkstra g s e = (Visit s [s] None (Some d) # evs, r) \<and> (\<forall>err. r \<noteq> Threw err))
   \<and> (getNode g s = None \<or> getNode g e = None \<longrightarrow> aStar g s e = ([], Threw TypeError))"
  using bfs_first_event [of g s e] dfs_first_event [of g s e] dijkstra_first_event [of g s e]
    aStar_unknown [of g s e]
  by blast

theorem unknown_node_counterexample:
  "getNode exampleGraph ''Z'' = None
   \<and> bfs exampleGraph ''Z'' ''A'' = ([Visit ''Z'' [''Z''] (Some []) None, Done [] [''Z''] None], Returned)"
  by code_simp

theorem unknown_node_handling_witness:
  "getNode exampleGraph ''Z'' = None \<and> aStar exampleGraph ''Z'' ''A'' = ([], Threw TypeError)"
proof -
  have n: "getNode exampleGraph ''Z'' = None" by code_simp
  with unknown_node_handling [of exampleGraph "''Z''" "''A''"] show ?thesis by blast
qed

section \<open>DFS: what is pushed, and in which order\<close>

lemma dfs_for_closed_form:
  "k \<le> length nbrs \<Longrightarrow>
     snd (dfs_for visited current nbrs k (parent, stack))
       = stack @ rev (filter (\<lambda>n. \<not> Set_has visited n) (map fst (take k nbrs)))"
proof (induction k arbitrary: parent stack)
  case 0
  then show ?case by simp
next
  case (Suc k)
  then have t: "take (Suc k) nbrs = take k nbrs @ [nbrs ! k]"
    by (simp add: take_Suc_conv_app_nth)
  show ?case
    using Suc.IH [of parent stack]
      Suc.IH [of "Map_set (fst (nbrs ! k)) (Some current) parent" "stack @ [fst (nbrs ! k)]"]
      Suc.prems
    by (simp add: t Let_def)
qed

text \<open>
  C5, as amended. In DFS a node is marked visited only when it is popped, but pushing
  is guarded: of the popped node's neighbours exactly those not yet visited are pushed
  (also when they are on the stack already), in reverse adjacency order. So the
  first-listed neighbour that is not yet visited ends on top of the stack and is the
  next node visited.
\<close>

theorem dfs_push_order:
  "snd (dfs_for visited current nbrs (length nbrs) (parent, stack))
     = stack @ rev (filter (\<lambda>n. \<not> Set_has visited n) (map fst nbrs))
   \<and> (\<not> Set_has visited current \<and> current \<noteq> endId
        \<and> filter (\<lambda>n. \<not> Set_has (Set_add visited current) n) (map fst (getNeighbors g current)) = n # rest
      \<longrightarrow> (\<exists>evs r. dfs_loop g endId (stack @ [current], visited, parent)
             = (Visit current (visited @ [current]) (Some (Set_of stack)) None
                # Visit n (visited @ [current, n]) (Some (Set_of (stack @ rev rest))) None
                # evs, r)))"
proof (intro conjI impI)
  show "snd (dfs_for visited current nbrs (length nbrs) (parent, stack))
     = stack @ rev (filter (\<lambda>n. \<not> Set_has visited n) (map fst nbrs))"
    by (simp add: dfs_for_closed_form)
next
  assume a: "\<not> Set_has visited current \<and> current \<noteq> endId
        \<and> filter (\<lambda>n. \<not> Set_has (Set_add visited current) n) (map fst (getNeighbors g current)) = n # rest"
  let ?v1 = "Set_add visited current"
  have v1: "?v1 = visited @ [current]" using a by (simp add: Set_add_def Set_has_def)
  obtain p' s' where f: "dfs_for ?v1 current (getNeighbors g current)
                           (length (getNeighbors g current)) (parent, stack) = (p', s')"
    by (cases "dfs_for ?v1 current (getNeighbors g current)
                           (length (getNeighbors g current)) (parent, stack)") auto
  have s': "s' = (stack @ rev rest) @ [n]"
    using dfs_for_closed_form [of "length (getNeighbors g current)" "getNeighbors g current" ?v1
            current parent stack] a f by simp
  have "n \<in> set (filter (\<lambda>n. \<not> Set_has ?v1 n) (map fst (getNeighbors g current)))"
    using a by simp
  then have nv: "\<not> Set_has ?v1 n" by simp
  then have "n \<notin> set (visited @ [current])" unfolding v1 by (simp add: Set_has_def)
  then have "Set_add (visited @ [current]) n = visited @ [current, n]"
    by (simp add: Set_add_def)
  then have v2: "Set_add ?v1 n = visited @ [current, n]" unfolding v1 .
  obtain evs r where rest: "(if n = endId then finish p' endId (Set_add ?v1 n) None
              else (case dfs_for (Set_add ?v1 n) n (getNeighbors g n)
                           (length (getNeighbors g n)) (p', stack @ rev rest) of
                      (parent', stack') \<Rightarrow> dfs_loop g endId (stack', Set_add ?v1 n, parent'))) = (evs, r)"
    by (metis prod.collapse)
  have "dfs_loop g endId (s', ?v1, p')
          = (Visit n (visited @ [current, n]) (Some (Set_of (stack @ rev rest))) None # evs, r)"
    unfolding s' dfs_loop_snoc using nv rest by (simp add: v2 yield_def)
  then have "dfs_loop g endId (stack @ [current], visited, parent)
          = (Visit current (visited @ [current]) (Some (Set_of stack)) None
             # Visit n (visited @ [current, n]) (Some (Set_of (stack @ rev rest))) None # evs, r)"
    unfolding dfs_loop_snoc [of g endId stack current] using a f by (simp add: v1 yield_def)
  then show "\<exists>evs r. dfs_loop g endId (stack @ [current], visited, parent)
             = (Visit current (visited @ [current]) (Some (Set_of stack)) None
                # Visit n (visited @ [current, n]) (Some (Set_of (stack @ rev rest))) None
                # evs, r)" by blast
qed

theorem dfs_visited_neighbor_not_pushed_counterexample:
  "getNeighbors exampleGraph ''B'' = [(''A'', 10), (''C'', 5)]
   \<and> snd (dfs_for [''A'', ''B''] ''B'' (getNeighbors exampleGraph ''B'') 2 ([], [''C''])) = [''C'', ''C'']"
  by code_simp

theorem dfs_push_order_witness:
  "\<not> Set_has [] ''A'' \<and> ''A'' \<noteq> ''C''
   \<and> filter (\<lambda>n. \<not> Set_has (Set_add [] ''A'') n) (map fst (getNeighbors exampleGraph ''A'')) = [''B'', ''C'']
   \<and> fst (dfs exampleGraph ''A'' ''C'') ! 1 = Visit ''B'' [''A'', ''B''] (Some [''C'']) None"
proof -
  have h: "\<not> Set_has [] ''A'' \<and> ''A'' \<noteq> ''C''
     \<and> filter (\<lambda>n. \<not> Set_has (Set_add [] ''A'') n) (map fst (getNeighbors exampleGraph ''A'')) = ''B'' # [''C'']"
    by code_simp
  have d: "dfs exampleGraph ''A'' ''C'' = dfs_loop exampleGraph ''C'' ([] @ [''A''], [], [(''A'', None)])"
    by (simp add: dfs_def)
  have s: "Set_of ([] @ rev [''C'']) = [''C'']" by code_simp
  from dfs_push_order [of "[]" "''A''" "[]" "[(''A'', None)]" "[]" "''C''" exampleGraph "''B''" "[''C'']"] h
  have "\<exists>evs r. dfs_loop exampleGraph ''C'' ([] @ [''A''], [], [(''A'', None)])
      = (Visit ''A'' ([] @ [''A'']) (Some (Set_of [])) None
         # Visit ''B'' ([] @ [''A'', ''B'']) (Some (Set_of ([] @ rev [''C'']))) None # evs, r)"
    by blast
  then obtain evs r where "dfs_loop exampleGraph ''C'' ([] @ [''A''], [], [(''A'', None)])
      = (Visit ''A'' ([] @ [''A'']) (Some (Set_of [])) None
         # Visit ''B'' ([] @ [''A'', ''B'']) (Some (Set_of ([] @ rev [''C'']))) None # evs, r)"
    by blast
  then have "fst (dfs exampleGraph ''A'' ''C'') ! 1 = Visit ''B'' [''A'', ''B''] (Some [''C'']) None"
    unfolding d s by simp
  with h show ?thesis by simp
qed

section \<open>A leg without a path ends the trip\<close>

text \<open>The first \<open>done\<close> event of a generator: what \<open>step\<close> resolves the leg with.\<close>

fun first_done :: "event list \<Rightarrow> event option" where
  "first_done [] = None"
| "first_done (Visit node visited frontier distances # evs) = first_done evs"
| "first_done (Done path visited td # evs) = Some (Done path visited td)"

fun is_Construct :: "effect \<Rightarrow> bool" where
  "is_Construct (Construct algo a b) = True"
| "is_Construct _ = False"

fun is_TripComplete :: "effect \<Rightarrow> bool" where
  "is_TripComplete (Status (TripComplete n d)) = True"
| "is_TripComplete _ = False"

fun is_Stats :: "effect \<Rightarrow> bool" where
  "is_Stats (Stats a b c) = True"
| "is_Stats _ = False"

lemma step_effects:
  "step leg td evs r st = (effs, st', res) \<Longrightarrow>
     (\<forall>e \<in> set effs. is_Stats e) \<and> (\<forall>d. first_done evs = Some d \<longrightarrow> res = Resolved d)"
proof (induction leg td evs r st arbitrary: effs st' res rule: step.induct)
  case (4 leg totalDistance node visited frontier distances evs r totalVisited allVisited)
  obtain effs1 st1 res1 where s: "step leg totalDistance evs r
      (totalVisited + 1, fold (\<lambda>v s. Set_add s v) visited allVisited) = (effs1, st1, res1)"
    by (metis prod_cases3)
  from "4.prems" s have e: "effs = Stats (totalVisited + 1) (leg + 1) totalDistance # effs1"
    and r: "res = res1" by (simp_all add: Let_def)
  from "4.IH" [OF refl refl s] show ?case by (simp add: e r)
qed auto

lemma split_after_quiet:
  "\<forall>x \<in> set xs. \<not> is_Construct x \<Longrightarrow> xs @ ys = pre @ Construct algo a b # post
     \<Longrightarrow> \<exists>pre'. pre = xs @ pre' \<and> ys = pre' @ Construct algo a b # post"
proof (induction xs arbitrary: pre)
  case Nil
  then show ?case by simp
next
  case (Cons x xs)
  then obtain pre1 where p: "pre = x # pre1"
    by (cases pre) auto
  with Cons.prems have "xs @ ys = pre1 @ Construct algo a b # post" by simp
  from Cons.IH [OF _ this] Cons.prems(1) p show ?case by simp
qed

lemma no_Construct_no_split:
  "\<forall>x \<in> set xs. \<not> is_Construct x \<Longrightarrow> xs \<noteq> pre @ Construct algo a b # post"
  by auto

lemma Stats_quiet: "\<forall>e \<in> set effs. is_Stats e \<Longrightarrow>
    (\<forall>e \<in> set effs. \<not> is_Construct e) \<and> (\<forall>e \<in> set effs. \<not> is_TripComplete e)"
proof -
  have "is_Stats e \<Longrightarrow> \<not> is_Construct e \<and> \<not> is_TripComplete e" for e
    by (cases e) auto
  then show "\<forall>e \<in> set effs. is_Stats e \<Longrightarrow>
    (\<forall>e \<in> set effs. \<not> is_Construct e) \<and> (\<forall>e \<in> set effs. \<not> is_TripComplete e)" by blast
qed


lemma run_legs_finished:
  "\<not> leg < length route - 1 \<Longrightarrow>
     run_legs g algo route leg (totalVisited, totalDistance, allVisited)
       = ([Stats totalVisited (length route - 1) totalDistance,
           Status (TripComplete (length route - 1) totalDistance)], Completed)"
  by (simp add: run_legs.simps finish_trip_def)

lemma run_legs_unknown:
  "leg < length route - 1 \<Longrightarrow> getNode g (route ! leg) = None \<or> getNode g (route ! (leg + 1)) = None \<Longrightarrow>
     run_legs g algo route leg (totalVisited, totalDistance, allVisited)
       = ([Construct algo (route ! leg) (route ! (leg + 1))], Uncaught TypeError)"
  by (subst run_legs.simps) (auto simp: Let_def emit_def split: option.splits)

text \<open>What follows the leg's own effects, by what \<open>step\<close> resolved with.\<close>

fun after_leg :: "graph \<Rightarrow> algorithm \<Rightarrow> id list \<Rightarrow> nat \<Rightarrow> node \<Rightarrow> node \<Rightarrow> nat \<Rightarrow> int num \<Rightarrow> id list
                   \<Rightarrow> leg_result \<Rightarrow> trip" where
  "after_leg g algo route leg fromNode toNode totalVisited' totalDistance allVisited'
       (Resolved (Done path visited td)) =
     (if length path > 0 then
        (let totalDistance' = num_add totalDistance (legDist g path td)
         in emit (Stats totalVisited' (leg + 1) totalDistance')
              (run_legs g algo route (leg + 1) (totalVisited', totalDistance', allVisited')))
      else ([Status (NoPathFound (node_label fromNode) (node_label toNode))], Completed))"
| "after_leg g algo route leg fromNode toNode totalVisited' totalDistance allVisited'
       (Resolved (Visit _ _ _ _)) = ([], Never)"
| "after_leg g algo route leg fromNode toNode totalVisited' totalDistance allVisited' ResolvedNull =
     finish_trip (length route - 1) totalVisited' totalDistance"
| "after_leg g algo route leg fromNode toNode totalVisited' totalDistance allVisited' (LegUncaught e) =
     ([], Uncaught e)"
| "after_leg g algo route leg fromNode toNode totalVisited' totalDistance allVisited' LegNever =
     ([], Never)"

lemma run_legs_leg:
  assumes "leg < length route - 1"
    and "getNode g (route ! leg) = Some fromNode" "getNode g (route ! (leg + 1)) = Some toNode"
    and "algo_fn algo g (route ! leg) (route ! (leg + 1)) = (evs, r)"
    and "step leg totalDistance evs r (totalVisited, allVisited) = (effs, (totalVisited', allVisited'), res)"
    and "after_leg g algo route leg fromNode toNode totalVisited' totalDistance allVisited' res = (effs', out)"
  shows "run_legs g algo route leg (totalVisited, totalDistance, allVisited)
           = (Construct algo (route ! leg) (route ! (leg + 1))
              # Status (LegStatus (leg + 1) (node_label fromNode) (node_label toNode))
              # effs @ effs', out)"
proof (cases res)
  case (Resolved ev)
  show ?thesis
  proof (cases ev)
    case (Visit a b c d)
    with assms Resolved show ?thesis
      by (subst run_legs.simps) (simp add: Let_def emit_def)
  next
    case (Done path visited td)
    obtain effs2 out2 where rl: "run_legs g algo route (leg + 1)
        (totalVisited', num_add totalDistance (legDist g path td), allVisited') = (effs2, out2)"
      by (metis prod.collapse)
    with assms Resolved Done show ?thesis
      by (subst run_legs.simps) (auto simp: Let_def emit_def)
  qed
next
  case ResolvedNull
  with assms show ?thesis
    by (subst run_legs.simps) (auto simp: Let_def emit_def finish_trip_def)
next
  case (LegUncaught e)
  with assms show ?thesis
    by (subst run_legs.simps) (simp add: Let_def emit_def)
next
  case LegNever
  with assms show ?thesis
    by (subst run_legs.simps) (simp add: Let_def emit_def)
qed


lemma run_legs_abort:
  assumes na: "getNode g a = Some na" and nb: "getNode g b = Some nb"
    and fd: "first_done (fst (algo_fn algo g a b)) = Some (Done [] vis td)"
  shows "run_legs g algo route leg (totalVisited, totalDistance, allVisited) = (effs, out)
     \<Longrightarrow> effs = pre @ Construct algo a b # post
     \<Longrightarrow> out = Completed \<and> (\<forall>e \<in> set effs. \<not> is_TripComplete e)
         \<and> (\<forall>e \<in> set post. \<not> is_Construct e)
         \<and> post \<noteq> [] \<and> last post = Status (NoPathFound (node_label na) (node_label nb))"
proof (induction "length route - leg" arbitrary: leg totalVisited totalDistance allVisited effs out pre)
  case 0
  then have "\<not> leg < length route - 1" by simp
  from run_legs_finished [OF this] "0.prems" show ?case
    by (cases pre; simp) (cases "tl pre"; simp)
next
  case (Suc k)
  show ?case
  proof (cases "leg < length route - 1")
    case False
    from run_legs_finished [OF this] Suc.prems show ?thesis
      by (cases pre; simp) (cases "tl pre"; simp)
  next
    case lt: True
    let ?f = "route ! leg" and ?t = "route ! (leg + 1)"
    show ?thesis
    proof (cases "getNode g ?f = None \<or> getNode g ?t = None")
      case True
      from run_legs_unknown [OF lt True] Suc.prems
      have "pre @ Construct algo a b # post = [Construct algo ?f ?t]" by simp
      then have "a = ?f" "b = ?t" by (cases pre; simp)+
      with True na nb show ?thesis by auto
    next
      case False
      then obtain nf nt where nf: "getNode g ?f = Some nf" and nt: "getNode g ?t = Some nt" by auto
      obtain evs r where al: "algo_fn algo g ?f ?t = (evs, r)" by (metis prod.collapse)
      obtain effs1 tv' av' res where st: "step leg totalDistance evs r (totalVisited, allVisited)
            = (effs1, (tv', av'), res)"
        by (cases "step leg totalDistance evs r (totalVisited, allVisited)") auto
      obtain effs2 out2 where af: "after_leg g algo route leg nf nt tv' totalDistance av' res = (effs2, out2)"
        by (metis prod.collapse)
      from run_legs_leg [OF lt nf nt al st af] Suc.prems(1)
      have effs: "effs = Construct algo ?f ?t # Status (LegStatus (leg + 1) (node_label nf) (node_label nt))
                    # effs1 @ effs2" and out: "out = out2" by simp_all
      from step_effects [OF st] have stats: "\<forall>e \<in> set effs1. is_Stats e"
        and res: "\<And>d. first_done evs = Some d \<Longrightarrow> res = Resolved d" by auto
      note quiet = Stats_quiet [OF stats]
      show ?thesis
      proof (cases pre)
        case Nil
        with Suc.prems(2) effs have ab: "a = ?f" "b = ?t"
          and post: "post = Status (LegStatus (leg + 1) (node_label nf) (node_label nt)) # effs1 @ effs2"
          by simp_all
        from fd al ab have "res = Resolved (Done [] vis td)" by (intro res) simp
        with af have e2: "effs2 = [Status (NoPathFound (node_label nf) (node_label nt))]"
          and o2: "out2 = Completed" by simp_all
        from na nb nf nt ab have lab: "na = nf" "nb = nt" by simp_all
        show ?thesis using quiet by (simp add: effs out o2 post e2 lab)
      next
        case (Cons c pre1)
        with Suc.prems(2) effs
        have "(Status (LegStatus (leg + 1) (node_label nf) (node_label nt)) # effs1) @ effs2
                = pre1 @ Construct algo a b # post" by simp
        moreover have "\<forall>x \<in> set (Status (LegStatus (leg + 1) (node_label nf) (node_label nt)) # effs1).
                         \<not> is_Construct x" using quiet by simp
        ultimately obtain pre2 where e2: "effs2 = pre2 @ Construct algo a b # post"
          using split_after_quiet by blast
        show ?thesis
        proof (cases res)
          case (Resolved ev)
          show ?thesis
          proof (cases ev)
            case (Visit x1 x2 x3 x4)
            with af Resolved e2 show ?thesis by simp
          next
            case (Done path visited td')
            show ?thesis
            proof (cases "length path > 0")
              case True
              obtain effs3 out3 where rl: "run_legs g algo route (leg + 1)
                  (tv', num_add totalDistance (legDist g path td'), av') = (effs3, out3)"
                by (metis prod.collapse)
              with af Resolved Done True
              have e23: "effs2 = Stats tv' (leg + 1) (num_add totalDistance (legDist g path td')) # effs3"
                and o23: "out2 = out3" by (simp_all add: Let_def emit_def)
              from e2 e23 obtain pre3 where e3: "effs3 = pre3 @ Construct algo a b # post"
                by (cases pre2) auto
              have "k = length route - (leg + 1)" using Suc.hyps(2) by simp
              from Suc.hyps(1) [OF this rl e3]
              show ?thesis using quiet by (auto simp: effs out o23 e23)
            next
              case False
              with af Resolved Done e2 show ?thesis by (cases pre2; auto)
            qed
          qed
        next
          case ResolvedNull
          with af e2 show ?thesis by (cases pre2; simp add: finish_trip_def) (cases "tl pre2"; simp)
        next
          case (LegUncaught e)
          with af e2 show ?thesis by simp
        next
          case LegNever
          with af e2 show ?thesis by simp
        qed
      qed
    qed
  qed
qed

text \<open>
  C6. If a leg of the route, once its generator has been constructed for two nodes of
  the graph, produces a Done event with an empty path, the run aborts there: it
  returns normally, every effect after that leg's construction is a status or
  statistics line (no generator is constructed for a later leg), no trip-complete
  status is shown anywhere in the run, and the last thing shown is the no-path status
  naming the leg's start and end (by their labels).
\<close>

theorem no_path_aborts_trip:
  assumes "PathfinderApp_run g startId waypoints algo = (effs, out)"
    and "effs = pre @ Construct algo a b # post"
    and "getNode g a = Some na" and "getNode g b = Some nb"
    and "first_done (fst (algo_fn algo g a b)) = Some (Done [] vis td)"
  shows "out = Completed
         \<and> (\<forall>e \<in> set post. \<not> is_Construct e)
         \<and> (\<forall>e \<in> set effs. \<not> is_TripComplete e)
         \<and> post \<noteq> [] \<and> last post = Status (NoPathFound (node_label na) (node_label nb))"
proof -
  define stopIds where "stopIds = concat (map (\<lambda>w. case w of None \<Rightarrow> [] | Some i \<Rightarrow> if i = [] then [] else [i]) waypoints)"
  have quiet: False if "effs = [e]" "\<not> is_Construct e" for e
    using that assms(2) by (cases pre; auto) 
  have none: False if "effs = []"
    using that assms(2) by simp
  show ?thesis
  proof (cases "startId = [] \<or> length stopIds = 0 \<or> first_duplicate (startId # stopIds) \<noteq> None")
    case True
    then have "effs = [] \<or> (\<exists>e. effs = [e] \<and> \<not> is_Construct e)"
      using assms(1) unfolding PathfinderApp_run_def stopIds_def [symmetric] Let_def
      by (auto split: option.splits if_splits)
    with quiet none show ?thesis by blast
  next
    case False
    obtain effs1 out1 where rl: "run_legs g algo (startId # stopIds) 0 (0, Fin 0, []) = (effs1, out1)"
      by (metis prod.collapse)
    with False assms(1) have e: "effs = Status (Running (algo_name algo) (length (startId # stopIds) - 1)) # effs1"
      and o: "out = out1"
      unfolding PathfinderApp_run_def stopIds_def [symmetric] Let_def
      by (auto simp: emit_def split: option.splits if_splits)
    from e assms(2) obtain pre1 where "effs1 = pre1 @ Construct algo a b # post"
      by (cases pre) auto
    from run_legs_abort [OF assms(3,4,5) rl this] show ?thesis
      by (simp add: e o)
  qed
qed


text \<open>The example graph with one more node, \<open>D\<close>, that has no edge.\<close>

definition isolatedGraph :: graph where
  "isolatedGraph = addNode exampleGraph ''D'' 5 5 ''D'' ''default''"

theorem no_path_aborts_trip_witness:
  "PathfinderApp_run isolatedGraph ''A'' [Some ''C'', Some ''D'', Some ''B''] Bfs
     = ([Status (Running ''Breadth-First Search (BFS)'' 3),
         Construct Bfs ''A'' ''C'', Status (LegStatus 1 ''A'' ''C''),
         Stats 1 1 (Fin 0), Stats 2 1 (Fin 0), Stats 3 1 (Fin 0), Stats 3 1 (Fin 10)]
        @ Construct Bfs ''C'' ''D''
        # [Status (LegStatus 2 ''C'' ''D''), Stats 4 2 (Fin 10), Stats 5 2 (Fin 10),
           Stats 6 2 (Fin 10), Status (NoPathFound ''C'' ''D'')],
        Completed)
   \<and> getNode isolatedGraph ''C''
       = Some \<lparr>node_id = ''C'', node_x = 0, node_y = 10, node_label = ''C'', node_type = ''default''\<rparr>
   \<and> getNode isolatedGraph ''D''
       = Some \<lparr>node_id = ''D'', node_x = 5, node_y = 5, node_label = ''D'', node_type = ''default''\<rparr>
   \<and> first_done (fst (algo_fn Bfs isolatedGraph ''C'' ''D'')) = Some (Done [] [''C'', ''A'', ''B''] None)
   \<and> last [Status (LegStatus 2 ''C'' ''D''), Stats 4 2 (Fin 10), Stats 5 2 (Fin 10),
            Stats 6 2 (Fin 10), Status (NoPathFound ''C'' ''D'')]
       = Status (NoPathFound ''C'' ''D'')"
proof -
  have r: "PathfinderApp_run isolatedGraph ''A'' [Some ''C'', Some ''D'', Some ''B''] Bfs
     = ([Status (Running ''Breadth-First Search (BFS)'' 3),
         Construct Bfs ''A'' ''C'', Status (LegStatus 1 ''A'' ''C''),
         Stats 1 1 (Fin 0), Stats 2 1 (Fin 0), Stats 3 1 (Fin 0), Stats 3 1 (Fin 10)]
        @ Construct Bfs ''C'' ''D''
        # [Status (LegStatus 2 ''C'' ''D''), Stats 4 2 (Fin 10), Stats 5 2 (Fin 10),
           Stats 6 2 (Fin 10), Status (NoPathFound ''C'' ''D'')],
        Completed)"
    by code_simp
  have c: "getNode isolatedGraph ''C''
       = Some \<lparr>node_id = ''C'', node_x = 0, node_y = 10, node_label = ''C'', node_type = ''default''\<rparr>"
    by code_simp
  have d: "getNode isolatedGraph ''D''
       = Some \<lparr>node_id = ''D'', node_x = 5, node_y = 5, node_label = ''D'', node_type = ''default''\<rparr>"
    by code_simp
  have f: "first_done (fst (algo_fn Bfs isolatedGraph ''C'' ''D'')) = Some (Done [] [''C'', ''A'', ''B''] None)"
    by code_simp
  from no_path_aborts_trip [OF r refl c d f] r c d f show ?thesis by simp
qed

section \<open>The heap property\<close>

text \<open>Each entry's priority is at least the priority of its parent, the entry at \<open>(i - 1) >> 1\<close>.\<close>

definition heap_prop :: "('p::linorder \<times> 'a) list \<Rightarrow> bool" where
  "heap_prop data = (\<forall>i. 0 < i \<and> i < length data \<longrightarrow> fst (data ! ((i - 1) div 2)) \<le> fst (data ! i))"

text \<open>
  While an entry bubbles up from \<open>k\<close>, only the pair (parent of \<open>k\<close>, \<open>k\<close>) may be out of
  order, and the children of \<open>k\<close> are already above the parent of \<open>k\<close>.
\<close>

definition up_inv :: "('p::linorder \<times> 'a) list \<Rightarrow> nat \<Rightarrow> bool" where
  "up_inv data k =
     ((\<forall>i. 0 < i \<and> i < length data \<and> i \<noteq> k \<longrightarrow> fst (data ! ((i - 1) div 2)) \<le> fst (data ! i))
      \<and> (\<forall>i. 0 < i \<and> i < length data \<and> (i - 1) div 2 = k \<and> 0 < k
             \<longrightarrow> fst (data ! ((k - 1) div 2)) \<le> fst (data ! i)))"

text \<open>
  While an entry sinks down from \<open>k\<close>, only the pairs (\<open>k\<close>, child of \<open>k\<close>) may be out of
  order, and the children of \<open>k\<close> are already above the parent of \<open>k\<close>.
\<close>

definition down_inv :: "('p::linorder \<times> 'a) list \<Rightarrow> nat \<Rightarrow> bool" where
  "down_inv data k =
     ((\<forall>i. 0 < i \<and> i < length data \<and> (i - 1) div 2 \<noteq> k \<longrightarrow> fst (data ! ((i - 1) div 2)) \<le> fst (data ! i))
      \<and> (\<forall>i. 0 < i \<and> i < length data \<and> (i - 1) div 2 = k \<and> 0 < k
             \<longrightarrow> fst (data ! ((k - 1) div 2)) \<le> fst (data ! i)))"

lemma swap_nth:
  "i < length xs \<Longrightarrow> j < length xs \<Longrightarrow> m < length xs \<Longrightarrow>
     swap xs i j ! m = (if m = j then xs ! i else if m = i then xs ! j else xs ! m)"
  by (simp add: swap_def nth_list_update)

lemma up_inv_swap:
  assumes k: "k < length data" "0 < k"
    and inv: "up_inv data k"
    and lt: "fst (data ! k) < fst (data ! ((k - 1) div 2))"
  shows "up_inv (swap data k ((k - 1) div 2)) ((k - 1) div 2)"
proof -
  define n where "n = length data"
  define q where "q = (k - 1) div 2"
  define p where "p m = fst (data ! m)" for m
  define p' where "p' m = fst (swap data k q ! m)" for m
  have q: "q < k" "q < n" using k by (simp_all add: q_def n_def)
  have p': "p' m = (if m = q then p k else if m = k then p q else p m)" if "m < n" for m
    using that k q by (simp add: p'_def p_def n_def swap_nth)
  have i1: "p ((i - 1) div 2) \<le> p i" if "0 < i" "i < n" "i \<noteq> k" for i
    using inv that by (simp add: up_inv_def p_def n_def)
  have i2: "p q \<le> p i" if "0 < i" "i < n" "(i - 1) div 2 = k" for i
    using inv that k by (simp add: up_inv_def p_def n_def q_def)
  have lt': "p k < p q" using lt by (simp add: p_def q_def)
  have a: "p' ((i - 1) div 2) \<le> p' i" if "0 < i" "i < n" "i \<noteq> q" for i
  proof -
    have pi: "(i - 1) div 2 < n" using that by simp
    define j where "j = (i - 1) div 2"
    have j: "j < n" "j < i" using that by (simp_all add: j_def)
    have pj: "p' j = (if j = q then p k else if j = k then p q else p j)"
      and pi': "p' i = (if i = k then p q else p i)"
      using p' [OF j(1)] p' [OF that(2)] that(3) by simp_all
    have qk: "i = k \<Longrightarrow> j = q" by (simp add: j_def q_def)
    have "p' j \<le> p' i"
    proof (cases "i = k")
      case True
      then show ?thesis unfolding pj pi' using lt' qk j by simp
    next
      case False
      have ji: "p j \<le> p i" using i1 [OF that(1,2) False] by (simp add: j_def)
      show ?thesis
      proof (cases "j = k")
        case True
        then have "p q \<le> p i" using i2 [OF that(1,2)] by (simp add: j_def)
        then show ?thesis unfolding pj pi' using True False q by simp
      next
        case jk: False
        then show ?thesis unfolding pj pi' using ji lt' False by auto
      qed
    qed
    then show ?thesis by (simp add: j_def)
  qed
  have b: "p' ((q - 1) div 2) \<le> p' i" if "0 < i" "i < n" "(i - 1) div 2 = q" "0 < q" for i
  proof -
    have qq: "(q - 1) div 2 < q" "(q - 1) div 2 < n" using that q by simp_all
    have pq: "p ((q - 1) div 2) \<le> p q" using i1 [of q] that q by simp
    show ?thesis
    proof (cases "i = k")
      case True
      then show ?thesis using pq qq q k by (simp add: p' n_def)
    next
      case False
      have "i \<noteq> q" using that by auto
      moreover have "p q \<le> p i" using i1 [OF that(1,2) False] that by simp
      with pq have "p ((q - 1) div 2) \<le> p i" by (rule order_trans)
      ultimately show ?thesis using qq q False that by (simp add: p')
    qed
  qed
  show ?thesis
    unfolding up_inv_def using a b
    by (simp add: p'_def q_def n_def)
qed

lemma bubbleUp_heap_prop:
  "k < length data \<Longrightarrow> up_inv data k \<Longrightarrow> heap_prop (bubbleUp data k)"
proof (induction data k rule: bubbleUp.induct)
  case (1 data i)
  show ?case
  proof (cases "i > 0 \<and> fst (data ! i) < fst (data ! ((i - 1) div 2))")
    case True
    then have "up_inv (swap data i ((i - 1) div 2)) ((i - 1) div 2)"
      using up_inv_swap "1.prems" by blast
    moreover have "(i - 1) div 2 < length (swap data i ((i - 1) div 2))"
      using "1.prems" by simp
    ultimately have "heap_prop (bubbleUp (swap data i ((i - 1) div 2)) ((i - 1) div 2))"
      using "1.IH" True by simp
    then show ?thesis using True by (subst bubbleUp_unfold) simp
  next
    case False
    have "heap_prop data"
      unfolding heap_prop_def
    proof (intro allI impI)
      fix j assume j: "0 < j \<and> j < length data"
      show "fst (data ! ((j - 1) div 2)) \<le> fst (data ! j)"
      proof (cases "j = i")
        case True
        then show ?thesis using False j by auto
      next
        case False
        then show ?thesis using "1.prems"(2) j by (simp add: up_inv_def)
      qed
    qed
    then show ?thesis using False by (subst bubbleUp_unfold) auto
  qed
qed

lemma heap_prop_push: "heap_prop data \<Longrightarrow> heap_prop (push data item)"
proof -
  assume h: "heap_prop data"
  have "up_inv (data @ [item]) (length data)"
    unfolding up_inv_def
  proof (intro conjI allI impI)
    fix i assume "0 < i \<and> i < length (data @ [item]) \<and> i \<noteq> length data"
    then have i: "0 < i" "i < length data" by auto
    then have "(i - 1) div 2 < length data" by simp
    then show "fst ((data @ [item]) ! ((i - 1) div 2)) \<le> fst ((data @ [item]) ! i)"
      using h i by (simp add: nth_append heap_prop_def)
  next
    fix i assume "0 < i \<and> i < length (data @ [item]) \<and> (i - 1) div 2 = length data \<and> 0 < length data"
    then have False by auto
    then show "fst ((data @ [item]) ! ((length data - 1) div 2)) \<le> fst ((data @ [item]) ! i)" ..
  qed
  then show ?thesis by (simp add: push_def bubbleUp_heap_prop)
qed


lemma sinkDown_smallest_stay:
  assumes "sinkDown_smallest data k = k"
  shows "(2 * k + 1 < length data \<longrightarrow> fst (data ! k) \<le> fst (data ! (2 * k + 1)))
         \<and> (2 * k + 2 < length data \<longrightarrow> fst (data ! k) \<le> fst (data ! (2 * k + 2)))"
  using assms by (auto simp: sinkDown_smallest_def Let_def split: if_splits)

lemma sinkDown_smallest_move:
  assumes "sinkDown_smallest data k = s" "s \<noteq> k"
  shows "s < length data" "s = 2 * k + 1 \<or> s = 2 * k + 2" "fst (data ! s) < fst (data ! k)"
    "2 * k + 1 < length data \<longrightarrow> fst (data ! s) \<le> fst (data ! (2 * k + 1))"
    "2 * k + 2 < length data \<longrightarrow> fst (data ! s) \<le> fst (data ! (2 * k + 2))"
  using assms by (auto simp: sinkDown_smallest_def Let_def split: if_splits)

lemma child_cases:
  "0 < i \<Longrightarrow> (i - 1) div 2 = k \<longleftrightarrow> i = 2 * k + 1 \<or> i = 2 * k + (2 :: nat)"
  by presburger

lemma down_inv_stay:
  assumes inv: "down_inv data k" and st: "sinkDown_smallest data k = k"
  shows "heap_prop data"
  unfolding heap_prop_def
proof (intro allI impI)
  fix i assume i: "0 < i \<and> i < length data"
  show "fst (data ! ((i - 1) div 2)) \<le> fst (data ! i)"
  proof (cases "(i - 1) div 2 = k")
    case True
    then have "i = 2 * k + 1 \<or> i = 2 * k + 2" using i child_cases by blast
    then show ?thesis using sinkDown_smallest_stay [OF st] i True by auto
  next
    case False
    then show ?thesis using inv i by (simp add: down_inv_def)
  qed
qed

lemma down_inv_swap:
  assumes k: "k < length data"
    and inv: "down_inv data k"
    and sm: "sinkDown_smallest data k = s" "s \<noteq> k"
  shows "down_inv (swap data k s) s"
proof -
  define n where "n = length data"
  define p where "p m = fst (data ! m)" for m
  define p' where "p' m = fst (swap data k s ! m)" for m
  note mv = sinkDown_smallest_move [OF sm]
  have s: "s < n" "k < s" "k < n" "(s - 1) div 2 = k" "0 < s"
    using mv(1,2) k by (auto simp: n_def)
  have p': "p' m = (if m = s then p k else if m = k then p s else p m)" if "m < n" for m
    using that s by (simp add: p'_def p_def n_def swap_nth)
  have i1: "p ((i - 1) div 2) \<le> p i" if "0 < i" "i < n" "(i - 1) div 2 \<noteq> k" for i
    using inv that by (simp add: down_inv_def p_def n_def)
  have i2: "p ((k - 1) div 2) \<le> p i" if "0 < i" "i < n" "(i - 1) div 2 = k" "0 < k" for i
    using inv that by (simp add: down_inv_def p_def n_def)
  have sk: "p s < p k" using mv(3) by (simp add: p_def)
  have sc: "p s \<le> p i" if "0 < i" "i < n" "(i - 1) div 2 = k" for i
  proof -
    have "i = 2 * k + 1 \<or> i = 2 * k + 2" using that child_cases by blast
    then show ?thesis using mv(4,5) that by (auto simp: p_def n_def)
  qed
  have a: "p' ((i - 1) div 2) \<le> p' i" if "0 < i" "i < n" "(i - 1) div 2 \<noteq> s" for i
  proof -
    define j where "j = (i - 1) div 2"
    have j: "j < n" "j < i" "j \<noteq> s" using that by (simp_all add: j_def)
    have pj: "p' j = (if j = k then p s else p j)"
      and pi': "p' i = (if i = s then p k else if i = k then p s else p i)"
      using p' [OF j(1)] p' [OF that(2)] j(3) by simp_all
    have "p' j \<le> p' i"
    proof (cases "j = k")
      case True
      then have "p s \<le> p i" using sc [OF that(1,2)] by (simp add: j_def)
      then show ?thesis unfolding pj pi' using True sk j by auto
    next
      case jk: False
      then have ji: "p j \<le> p i" using i1 [OF that(1,2)] by (simp add: j_def)
      have "i \<noteq> s" using jk s(4) by (auto simp: j_def)
      show ?thesis
      proof (cases "i = k")
        case True
        then have "0 < k" using that by simp
        from i2 [OF s(5,1,4) this] have "p j \<le> p s" using True by (simp add: j_def)
        then show ?thesis unfolding pj pi' using True jk \<open>i \<noteq> s\<close> by simp
      next
        case False
        then show ?thesis unfolding pj pi' using ji jk \<open>i \<noteq> s\<close> by simp
      qed
    qed
    then show ?thesis by (simp add: j_def)
  qed
  have b: "p' ((s - 1) div 2) \<le> p' i" if "0 < i" "i < n" "(i - 1) div 2 = s" for i
  proof -
    have "i \<noteq> s" "i \<noteq> k" using that s by auto
    moreover have "p s \<le> p i" using i1 [OF that(1,2)] that s by simp
    ultimately show ?thesis using s that by (simp add: p')
  qed
  show ?thesis
    unfolding down_inv_def using a b
    by (simp add: p'_def n_def)
qed

lemma sinkDown_heap_prop:
  "k < length data \<Longrightarrow> down_inv data k \<Longrightarrow> heap_prop (sinkDown data k)"
proof (induction data k rule: sinkDown.induct)
  case (1 data i)
  show ?case
  proof (cases "sinkDown_smallest data i = i")
    case True
    with "1.prems" show ?thesis by (subst sinkDown_unfold) (simp add: down_inv_stay)
  next
    case False
    have "down_inv (swap data i (sinkDown_smallest data i)) (sinkDown_smallest data i)"
      using down_inv_swap [OF "1.prems" refl False] .
    moreover have "sinkDown_smallest data i < length (swap data i (sinkDown_smallest data i))"
      using sinkDown_smallest_move(1) [OF refl False] by simp
    ultimately have "heap_prop (sinkDown (swap data i (sinkDown_smallest data i)) (sinkDown_smallest data i))"
      using "1.IH" [OF refl False] by simp
    then show ?thesis using False by (subst sinkDown_unfold) simp
  qed
qed

lemma heap_prop_pop: "heap_prop data \<Longrightarrow> heap_prop (snd (pop data))"
proof (cases data)
  case Nil
  then show ?thesis by (simp add: heap_prop_def)
next
  case (Cons x xs)
  assume h: "heap_prop data"
  show ?thesis
  proof (cases "xs = []")
    case True
    then show ?thesis by (simp add: Cons pop_def heap_prop_def)
  next
    case False
    define d1 where "d1 = (butlast data)[0 := last data]"
    have len: "length d1 = length data - 1" "0 < length d1"
      using False by (simp_all add: d1_def Cons)
    have nth: "d1 ! i = data ! i" if "0 < i" "i < length d1" for i
      using that by (simp add: d1_def nth_butlast)
    have "down_inv d1 0"
      unfolding down_inv_def
    proof (intro conjI allI impI)
      fix i assume i: "0 < i \<and> i < length d1 \<and> (i - 1) div 2 \<noteq> 0"
      then have "0 < (i - 1) div 2" "(i - 1) div 2 < length d1" by auto
      moreover have "fst (data ! ((i - 1) div 2)) \<le> fst (data ! i)"
        using i h len unfolding heap_prop_def by auto
      ultimately show "fst (d1 ! ((i - 1) div 2)) \<le> fst (d1 ! i)"
        using i by (simp add: nth)
    qed simp
    then have "heap_prop (sinkDown d1 0)" using len by (intro sinkDown_heap_prop) simp_all
    moreover have "snd (pop data) = sinkDown d1 0"
      using False by (simp add: pop_def Cons d1_def Let_def)
    ultimately show ?thesis by simp
  qed
qed

lemma heap_root_min:
  "heap_prop data \<Longrightarrow> i < length data \<Longrightarrow> fst (data ! 0) \<le> fst (data ! i)"
proof (induction i rule: less_induct)
  case (less i)
  show ?case
  proof (cases "i = 0")
    case True
    then show ?thesis by simp
  next
    case False
    then have "fst (data ! ((i - 1) div 2)) \<le> fst (data ! i)"
      using less.prems by (simp add: heap_prop_def)
    moreover have "fst (data ! 0) \<le> fst (data ! ((i - 1) div 2))"
      using False less.prems by (intro less.IH) auto
    ultimately show ?thesis by (rule order_trans [rotated])
  qed
qed

lemma pop_min:
  assumes "heap_prop data" "data \<noteq> []"
  shows "\<exists>t. fst (pop data) = Some t \<and> mset data = add_mset t (mset (snd (pop data)))
           \<and> (\<forall>e \<in> set (snd (pop data)). fst t \<le> fst e)"
proof -
  have 1: "fst (pop data) = Some (hd data)" using pop_nonempty(1) [OF assms(2)] .
  have 2: "mset data = add_mset (hd data) (mset (snd (pop data)))"
    using pop_nonempty(2) [OF assms(2)] by simp
  have "fst (hd data) \<le> fst e" if "e \<in> set (snd (pop data))" for e
  proof -
    have "e \<in># mset data" unfolding 2 using that by simp
    then have "e \<in> set data" by simp
    then obtain i where "i < length data" "data ! i = e" by (auto simp: in_set_conv_nth)
    with heap_root_min [OF assms(1), of i] assms(2) show ?thesis by (simp add: hd_conv_nth)
  qed
  with 1 2 show ?thesis by blast
qed

text \<open>
  C9. On a heap that has the min-heap property, \<open>push\<close> and \<open>pop\<close> give a heap that
  has it again (each priority is at least its parent's); \<open>push\<close> adds exactly the
  pushed entry; \<open>pop\<close> on a non-empty heap returns an entry of the heap, removes exactly
  that entry, and its priority is at most the priority of every entry that remains.
\<close>

theorem MinHeap_invariant:
  "heap_prop data \<longrightarrow>
     heap_prop (push data item)
     \<and> mset (push data item) = add_mset item (mset data)
     \<and> heap_prop (snd (pop data))
     \<and> (data \<noteq> [] \<longrightarrow>
          (\<exists>t. fst (pop data) = Some t \<and> mset data = add_mset t (mset (snd (pop data)))
             \<and> (\<forall>e \<in> set (snd (pop data)). fst t \<le> fst e)))"
  using heap_prop_push [of data item] mset_push [of data item] heap_prop_pop [of data]
    pop_min [of data]
  by blast


theorem MinHeap_invariant_witness:
  "push [(1 :: int, ''a''), (3, ''b''), (2, ''c'')] (0, ''d'')
     = [(0, ''d''), (1, ''a''), (2, ''c''), (3, ''b'')]
   \<and> pop [(1 :: int, ''a''), (3, ''b''), (2, ''c'')] = (Some (1, ''a''), [(2, ''c''), (3, ''b'')])
   \<and> mset (push [(1 :: int, ''a''), (3, ''b''), (2, ''c'')] (0, ''d''))
       = add_mset (0, ''d'') (mset [(1 :: int, ''a''), (3, ''b''), (2, ''c'')])"
proof -
  have h: "heap_prop [(1 :: int, ''a''), (3, ''b''), (2, ''c'')]"
    unfolding heap_prop_def
  proof (intro allI impI)
    fix i :: nat assume "0 < i \<and> i < length [(1 :: int, ''a''), (3, ''b''), (2, ''c'')]"
    then have "i = 1 \<or> i = 2" by auto
    then show "fst ([(1 :: int, ''a''), (3, ''b''), (2, ''c'')] ! ((i - 1) div 2))
                 \<le> fst ([(1 :: int, ''a''), (3, ''b''), (2, ''c'')] ! i)"
      by auto
  qed
  have 1: "push [(1 :: int, ''a''), (3, ''b''), (2, ''c'')] (0, ''d'')
     = [(0, ''d''), (1, ''a''), (2, ''c''), (3, ''b'')]"
    by code_simp
  have 2: "pop [(1 :: int, ''a''), (3, ''b''), (2, ''c'')] = (Some (1, ''a''), [(2, ''c''), (3, ''b'')])"
    by code_simp
  from MinHeap_invariant [of "[(1 :: int, ''a''), (3, ''b''), (2, ''c'')]" "(0, ''d'')"] h 1 2
  show ?thesis by blast
qed

section \<open>Parent chains and reconstructPath\<close>

text \<open>
  \<open>chain parent v path\<close>: following \<open>parent\<close> from \<open>v\<close> reaches \<open>null\<close>, and \<open>path\<close> lists
  the nodes met, the last one first and \<open>v\<close> last. This is when \<open>reconstructPath\<close> returns.
\<close>

inductive chain :: "(id \<times> id option) list \<Rightarrow> id \<Rightarrow> id list \<Rightarrow> bool" where
  chain_root: "Map_get parent v = Some None \<Longrightarrow> chain parent v [v]"
| chain_step: "Map_get parent v = Some (Some u) \<Longrightarrow> chain parent u path \<Longrightarrow> chain parent v (path @ [v])"

lemma chain_reconstructPath_loop:
  "chain parent v path \<Longrightarrow> reconstructPath_loop parent (Some v) acc = Some (path @ acc)"
proof (induction arbitrary: acc rule: chain.induct)
  case (chain_root parent v)
  then show ?case
    by (subst reconstructPath_loop.simps) (simp add: reconstructPath_loop.simps [of _ None])
next
  case (chain_step parent v u path)
  show ?case
    by (subst reconstructPath_loop.simps) (simp add: chain_step.hyps(1) chain_step.IH)
qed

lemma chain_reconstructPath: "chain parent v path \<Longrightarrow> reconstructPath parent v = Some path"
  using chain_reconstructPath_loop [of parent v path "[]"] by (simp add: reconstructPath_def)

lemma chain_last: "chain parent v path \<Longrightarrow> path \<noteq> [] \<and> last path = v"
  by (induction rule: chain.induct) auto

lemma chain_update:
  "chain parent v path \<Longrightarrow> (\<And>x. x \<in> set path \<Longrightarrow> Map_get parent' x = Map_get parent x)
     \<Longrightarrow> chain parent' v path"
proof (induction rule: chain.induct)
  case (chain_root parent v)
  then show ?case by (simp add: chain.chain_root)
next
  case (chain_step parent v u path)
  then have "chain parent' u path" by simp
  moreover have "Map_get parent' v = Some (Some u)" using chain_step by simp
  ultimately show ?case by (rule chain.chain_step [rotated])
qed

section \<open>Node paths\<close>

text \<open>A non-empty list of nodes, each one a neighbour of the one before.\<close>

fun is_node_path :: "graph \<Rightarrow> id list \<Rightarrow> bool" where
  "is_node_path g [] = False"
| "is_node_path g [v] = True"
| "is_node_path g (a # b # rest) = (b \<in> fst ` set (getNeighbors g a) \<and> is_node_path g (b # rest))"

lemma is_node_path_snoc:
  "is_node_path g path \<Longrightarrow> v \<in> fst ` set (getNeighbors g (last path)) \<Longrightarrow> is_node_path g (path @ [v])"
  by (induction g path rule: is_node_path.induct) auto

lemma is_path_append:
  "is_path g a (p1 @ p2) b \<longleftrightarrow> (\<exists>x. is_path g a p1 x \<and> is_path g x p2 b)"
  by (induction p1 arbitrary: a) auto

text \<open>A path that leaves a set of nodes has an edge that leaves it.\<close>

lemma path_crossing:
  "is_path g a p w \<Longrightarrow> a \<in> S \<Longrightarrow> w \<notin> S \<Longrightarrow>
     \<exists>p1 x y p2. p = p1 @ y # p2 \<and> is_path g a p1 x \<and> x \<in> S \<and> y \<in> set (getNeighbors g x) \<and> fst y \<notin> S"
proof (induction p arbitrary: a)
  case Nil
  then show ?case by simp
next
  case (Cons e p)
  show ?case
  proof (cases "fst e \<in> S")
    case True
    from Cons.prems have "is_path g (fst e) p w" by simp
    from Cons.IH [OF this True Cons.prems(3)] obtain p1 x y p2 where
      "p = p1 @ y # p2" "is_path g (fst e) p1 x" "x \<in> S" "y \<in> set (getNeighbors g x)" "fst y \<notin> S"
      by blast
    then have "e # p = (e # p1) @ y # p2 \<and> is_path g a (e # p1) x \<and> x \<in> S
                 \<and> y \<in> set (getNeighbors g x) \<and> fst y \<notin> S"
      using Cons.prems(1) by simp
    then show ?thesis by blast
  next
    case False
    have "e # p = [] @ e # p \<and> is_path g a [] a \<and> a \<in> S \<and> e \<in> set (getNeighbors g a) \<and> fst e \<notin> S"
      using Cons.prems False by simp
    then show ?thesis by blast
  qed
qed

section \<open>BFS: the enqueue loop in closed form\<close>

text \<open>The neighbours that get enqueued: those not yet visited, each once, in adjacency order.\<close>

fun new_nodes :: "id list \<Rightarrow> id list \<Rightarrow> id list" where
  "new_nodes visited [] = []"
| "new_nodes visited (n # ns) =
     (if n \<in> set visited then new_nodes visited ns else n # new_nodes (visited @ [n]) ns)"

lemma set_new_nodes: "set (new_nodes visited ns) = set ns - set visited"
  by (induction visited ns rule: new_nodes.induct) auto

lemma distinct_new_nodes: "distinct (new_nodes visited ns)"
  by (induction visited ns rule: new_nodes.induct) (auto simp: set_new_nodes)

lemma bfs_for_closed_form:
  "bfs_for current nbrs (visited, parent, queue) =
     (visited @ new_nodes visited (map fst nbrs),
      fold (\<lambda>n. Map_set n (Some current)) (new_nodes visited (map fst nbrs)) parent,
      queue @ new_nodes visited (map fst nbrs))"
proof (induction nbrs arbitrary: visited parent queue)
  case Nil
  then show ?case by simp
next
  case (Cons e nbrs)
  obtain n w where e: "e = (n, w)" by (cases e)
  show ?case by (simp add: e Cons.IH Set_has_def Set_add_def)
qed

lemma Map_get_fold_Map_set:
  "Map_get (fold (\<lambda>n. Map_set n x) ns m) v = (if v \<in> set ns then Some x else Map_get m v)"
  by (induction ns arbitrary: m) (auto simp: Map_get_Map_set)


section \<open>BFS finds a path with the fewest edges\<close>

text \<open>
  The loop invariant, with the depth \<open>dep\<close> of each visited node as a ghost value: every
  visited node has a parent chain that is a path from the start of \<open>dep + 1\<close> nodes inside
  the visited set; no path from the start to it is shorter than \<open>dep\<close>; the visited nodes no
  longer in the queue are not the target and have all their neighbours visited; the queue
  is ordered by depth and spans at most two depths.
\<close>

definition bfs_inv ::
  "graph \<Rightarrow> id \<Rightarrow> id \<Rightarrow> (id \<Rightarrow> nat) \<Rightarrow> id list \<Rightarrow> id list \<Rightarrow> (id \<times> id option) list \<Rightarrow> bool" where
  "bfs_inv g s e dep queue visited parent =
     (s \<in> set visited \<and> set queue \<subseteq> set visited
      \<and> (\<forall>v \<in> set visited. \<exists>path. chain parent v path \<and> hd path = s \<and> is_node_path g path
             \<and> set path \<subseteq> set visited \<and> length path = Suc (dep v))
      \<and> (\<forall>v \<in> set visited. \<forall>p. is_path g s p v \<longrightarrow> dep v \<le> length p)
      \<and> (\<forall>v \<in> set visited - set queue. v \<noteq> e \<and> fst ` set (getNeighbors g v) \<subseteq> set visited)
      \<and> sorted (map dep queue) \<and> (\<forall>q \<in> set queue. dep q \<le> dep (hd queue) + 1))"

lemma bfs_inv_init: "bfs_inv g s e (\<lambda>_. 0) [s] [s] [(s, None)]"
proof -
  have "chain [(s, None)] s [s]" by (rule chain_root) (simp add: Map_get_def)
  then have "\<exists>path. chain [(s, None)] s path \<and> hd path = s \<and> is_node_path g path
             \<and> set path \<subseteq> set [s] \<and> length path = Suc 0"
    by (intro exI [of _ "[s]"]) simp
  then show ?thesis by (simp add: bfs_inv_def)
qed

text \<open>Every path from the start to an unvisited node is longer than the depth of the queue's head.\<close>

lemma bfs_inv_unvisited_far:
  assumes inv: "bfs_inv g s e dep (c # queue1) visited parent"
    and p: "is_path g s p w" and w: "w \<notin> set visited"
  shows "dep c + 1 \<le> length p"
proof -
  have s: "s \<in> set visited" using inv by (simp add: bfs_inv_def)
  from path_crossing [OF p s w] obtain p1 x y p2 where
    pp: "p = p1 @ y # p2" and p1: "is_path g s p1 x" and x: "x \<in> set visited"
    and y: "y \<in> set (getNeighbors g x)" "fst y \<notin> set visited" by blast
  have "x \<in> set (c # queue1)"
  proof (rule ccontr)
    assume "x \<notin> set (c # queue1)"
    with x inv have "fst ` set (getNeighbors g x) \<subseteq> set visited" by (simp add: bfs_inv_def)
    with y show False by auto
  qed
  moreover have "sorted (map dep (c # queue1))" using inv by (simp add: bfs_inv_def)
  ultimately have "dep c \<le> dep x" by auto
  moreover have "dep x \<le> length p1" using inv x p1 by (simp add: bfs_inv_def)
  ultimately show ?thesis by (simp add: pp)
qed

lemma bfs_inv_step:
  assumes inv: "bfs_inv g s e dep (c # queue1) visited parent" and ce: "c \<noteq> e"
  defines "news \<equiv> new_nodes visited (map fst (getNeighbors g c))"
  defines "parent' \<equiv> fold (\<lambda>n. Map_set n (Some c)) news parent"
  defines "dep' \<equiv> (\<lambda>v. if v \<in> set news then dep c + 1 else dep v)"
  shows "bfs_inv g s e dep' (queue1 @ news) (visited @ news) parent'"
proof -
  have sV: "s \<in> set visited" and QV: "set (c # queue1) \<subseteq> set visited"
    and ch: "\<And>v. v \<in> set visited \<Longrightarrow> \<exists>path. chain parent v path \<and> hd path = s \<and> is_node_path g path
             \<and> set path \<subseteq> set visited \<and> length path = Suc (dep v)"
    and far: "\<And>v p. v \<in> set visited \<Longrightarrow> is_path g s p v \<Longrightarrow> dep v \<le> length p"
    and ex: "\<And>v. v \<in> set visited \<Longrightarrow> v \<notin> set (c # queue1) \<Longrightarrow>
                 v \<noteq> e \<and> fst ` set (getNeighbors g v) \<subseteq> set visited"
    and so: "sorted (map dep (c # queue1))" and sp: "\<And>q. q \<in> set (c # queue1) \<Longrightarrow> dep q \<le> dep c + 1"
    using inv by (auto simp: bfs_inv_def)
  have news: "set news = fst ` set (getNeighbors g c) - set visited"
    by (simp add: news_def set_new_nodes)
  have cV: "c \<in> set visited" using QV by simp
  have pg: "Map_get parent' v = (if v \<in> set news then Some (Some c) else Map_get parent v)" for v
    by (simp add: parent'_def Map_get_fold_Map_set)
  have keep: "chain parent' v path" if "chain parent v path" "set path \<subseteq> set visited" for v path
    using that(1)
  proof (rule chain_update)
    fix x assume "x \<in> set path"
    with that(2) news have "x \<notin> set news" by auto
    then show "Map_get parent' x = Map_get parent x" by (simp add: pg)
  qed
  have depV: "dep' v = dep v" if "v \<in> set visited" for v
    using that news by (simp add: dep'_def)
  have depN: "dep' v = dep c + 1" if "v \<in> set news" for v
    using that by (simp add: dep'_def)
  have 1: "s \<in> set (visited @ news) \<and> set (queue1 @ news) \<subseteq> set (visited @ news)"
    using sV QV by auto
  have 2: "\<exists>path. chain parent' v path \<and> hd path = s \<and> is_node_path g path
             \<and> set path \<subseteq> set (visited @ news) \<and> length path = Suc (dep' v)"
    if v: "v \<in> set (visited @ news)" for v
  proof (cases "v \<in> set visited")
    case True
    from ch [OF True] obtain path where pa: "chain parent v path" "hd path = s" "is_node_path g path"
      "set path \<subseteq> set visited" "length path = Suc (dep v)" by blast
    have "chain parent' v path \<and> hd path = s \<and> is_node_path g path
             \<and> set path \<subseteq> set (visited @ news) \<and> length path = Suc (dep' v)"
      using pa keep [OF pa(1,4)] depV [OF True] by auto
    then show ?thesis by blast
  next
    case False
    with v have vn: "v \<in> set news" by simp
    from ch [OF cV] obtain path where pa: "chain parent c path" "hd path = s" "is_node_path g path"
      "set path \<subseteq> set visited" "length path = Suc (dep c)" by blast
    have l: "path \<noteq> []" "last path = c" using chain_last [OF pa(1)] by simp_all
    have "chain parent' v (path @ [v])"
      using keep [OF pa(1,4)] vn by (intro chain_step [of _ _ c]) (simp_all add: pg)
    moreover have "hd (path @ [v]) = s" using l pa(2) by simp
    moreover have "is_node_path g (path @ [v])"
      using pa(3) vn news l by (intro is_node_path_snoc) auto
    moreover have "set (path @ [v]) \<subseteq> set (visited @ news)" using pa(4) vn by auto
    moreover have "length (path @ [v]) = Suc (dep' v)" using pa(5) depN [OF vn] by simp
    ultimately show ?thesis by blast
  qed
  have 3: "dep' v \<le> length p" if v: "v \<in> set (visited @ news)" and p: "is_path g s p v" for v p
  proof (cases "v \<in> set visited")
    case True
    then show ?thesis using far [OF True p] depV by simp
  next
    case False
    with v have vn: "v \<in> set news" by simp
    from bfs_inv_unvisited_far [OF inv p False] show ?thesis by (simp add: depN [OF vn])
  qed
  have 4: "v \<noteq> e \<and> fst ` set (getNeighbors g v) \<subseteq> set (visited @ news)"
    if v: "v \<in> set (visited @ news) - set (queue1 @ news)" for v
  proof (cases "v = c")
    case True
    then show ?thesis using ce news by auto
  next
    case False
    with v have "v \<in> set visited" "v \<notin> set (c # queue1)" by auto
    from ex [OF this] show ?thesis by auto
  qed
  have q1: "dep' q = dep q" "dep c \<le> dep q" "dep q \<le> dep c + 1" if "q \<in> set queue1" for q
  proof -
    have "q \<in> set visited" using that QV by auto
    then show "dep' q = dep q" by (rule depV)
    show "dep c \<le> dep q" using so that by auto
    show "dep q \<le> dep c + 1" using sp [of q] that by simp
  qed
  have bounds: "dep c \<le> dep' q \<and> dep' q \<le> dep c + 1" if "q \<in> set (queue1 @ news)" for q
    using that q1 [of q] depN [of q] by (cases "q \<in> set news") auto
  have 5: "sorted (map dep' (queue1 @ news))"
  proof -
    have a: "map dep' queue1 = map dep queue1" using q1(1) by simp
    have b: "sorted (map dep queue1)" using so by simp
    have c: "map dep' news = replicate (length news) (dep c + 1)"
      using depN by (simp add: map_replicate_const [symmetric])
    have d: "\<forall>x \<in> set (map dep queue1). \<forall>y \<in> set (replicate (length news) (dep c + 1)). x \<le> y"
      using q1(3) by auto
    have "sorted (map dep queue1 @ replicate (length news) (dep c + 1))"
      unfolding sorted_append using b d by simp
    then show ?thesis unfolding map_append a c .
  qed
  have 6: "dep' q \<le> dep' (hd (queue1 @ news)) + 1" if "q \<in> set (queue1 @ news)" for q
  proof -
    have "queue1 @ news \<noteq> []" using that by auto
    then have "hd (queue1 @ news) \<in> set (queue1 @ news)" by (rule hd_in_set)
    from bounds [OF this] bounds [OF that] show ?thesis by simp
  qed
  show ?thesis
    unfolding bfs_inv_def using 1 2 3 4 5 6 by blast
qed


lemma bfs_inv_exhausted:
  assumes inv: "bfs_inv g s e dep [] visited parent" and p: "is_path g s p e"
  shows False
proof (cases "e \<in> set visited")
  case True
  with inv show False by (auto simp: bfs_inv_def)
next
  case False
  have s: "s \<in> set visited" using inv by (simp add: bfs_inv_def)
  from path_crossing [OF p s False] obtain x y where
    "x \<in> set visited" "y \<in> set (getNeighbors g x)" "fst y \<notin> set visited" by blast
  moreover from inv \<open>x \<in> set visited\<close> have "fst ` set (getNeighbors g x) \<subseteq> set visited"
    by (simp add: bfs_inv_def)
  ultimately show False by auto
qed

lemma bfs_loop_shortest:
  "is_path g s p0 e \<Longrightarrow> bfs_inv g s e dep queue visited parent \<Longrightarrow>
     \<exists>evs path vis. bfs_loop g e (queue, visited, parent) = (evs @ [Done path vis None], Returned)
        \<and> hd path = s \<and> last path = e \<and> is_node_path g path
        \<and> (\<forall>p. is_path g s p e \<longrightarrow> length path \<le> Suc (length p))"
proof (induction g e "(queue, visited, parent)" arbitrary: dep queue visited parent rule: bfs_loop.induct)
  case (1 g endId queue visited parent)
  show ?case
  proof (cases queue)
    case Nil
    with "1.prems" bfs_inv_exhausted show ?thesis by blast
  next
    case (Cons current queue1)
    note inv = "1.prems"(2) [unfolded Cons]
    show ?thesis
    proof (cases "current = endId")
      case True
      have "endId \<in> set visited" using inv True by (simp add: bfs_inv_def)
      with inv obtain path where pa: "chain parent endId path" "hd path = s" "is_node_path g path"
        "length path = Suc (dep endId)" unfolding bfs_inv_def by blast
      have far: "\<forall>p. is_path g s p endId \<longrightarrow> length path \<le> Suc (length p)"
        using inv \<open>endId \<in> set visited\<close> pa(4) by (simp add: bfs_inv_def)
      have "bfs_loop g endId (queue, visited, parent)
              = ([Visit endId visited (Some (Set_of queue1)) None] @ [Done path visited None], Returned)"
        unfolding Cons True bfs_loop_Cons
        by (simp add: finish_def chain_reconstructPath [OF pa(1)] yield_def)
      with pa far chain_last [OF pa(1)] show ?thesis by blast
    next
      case False
      define news where "news = new_nodes visited (map fst (getNeighbors g current))"
      define parent' where "parent' = fold (\<lambda>n. Map_set n (Some current)) news parent"
      define dep' where "dep' = (\<lambda>v. if v \<in> set news then dep current + 1 else dep v)"
      have f: "bfs_for current (getNeighbors g current) (visited, parent, queue1)
                 = (visited @ news, parent', queue1 @ news)"
        by (simp add: bfs_for_closed_form news_def parent'_def)
      have inv': "bfs_inv g s endId dep' (queue1 @ news) (visited @ news) parent'"
        using bfs_inv_step [OF inv False] by (simp add: news_def parent'_def dep'_def)
      from "1.hyps" [OF Cons False f [symmetric] refl "1.prems"(1) inv']
      obtain evs path vis where r: "bfs_loop g endId (queue1 @ news, visited @ news, parent')
            = (evs @ [Done path vis None], Returned)"
        and pa: "hd path = s" "last path = endId" "is_node_path g path"
          "\<forall>p. is_path g s p endId \<longrightarrow> length path \<le> Suc (length p)"
        by blast
      have "bfs_loop g endId (queue, visited, parent)
              = ((Visit current visited (Some (Set_of queue1)) None # evs) @ [Done path vis None], Returned)"
        unfolding Cons bfs_loop_Cons by (simp add: False f r yield_def)
      with pa show ?thesis by blast
    qed
  qed
qed

text \<open>
  C4. When the end is reachable from the start, BFS returns after a Done event whose
  path starts at the start, ends at the end, follows edges of the graph, and has no
  more edges than any path from the start to the end, whatever the weights.
\<close>

theorem bfs_fewest_edges:
  assumes "is_path g startId p0 endId"
  shows "\<exists>evs path vis. bfs g startId endId = (evs @ [Done path vis None], Returned)
           \<and> hd path = startId \<and> last path = endId \<and> is_node_path g path
           \<and> (\<forall>p. is_path g startId p endId \<longrightarrow> length path - 1 \<le> length p)"
proof -
  have "bfs g startId endId = bfs_loop g endId ([startId], [startId], [(startId, None)])"
    by (simp add: bfs_def Set_add_def)
  moreover from bfs_loop_shortest [OF assms bfs_inv_init]
  obtain evs path vis where "bfs_loop g endId ([startId], [startId], [(startId, None)])
        = (evs @ [Done path vis None], Returned)"
    "hd path = startId" "last path = endId" "is_node_path g path"
    "\<forall>p. is_path g startId p endId \<longrightarrow> length path \<le> Suc (length p)" by blast
  moreover have "length path - 1 \<le> n" if "length path \<le> Suc n" for n using that by simp
  ultimately show ?thesis by auto
qed


theorem bfs_fewest_edges_witness:
  "is_path exampleGraph ''A'' [(''B'', 10), (''C'', 5)] ''C''
   \<and> bfs exampleGraph ''A'' ''C''
       = ([Visit ''A'' [''A''] (Some []) None,
           Visit ''B'' [''A'', ''B'', ''C''] (Some [''C'']) None,
           Visit ''C'' [''A'', ''B'', ''C''] (Some []) None]
          @ [Done [''A'', ''C''] [''A'', ''B'', ''C''] None], Returned)
   \<and> length [''A'', ''C''] - 1 \<le> length [(''B'', 10 :: int), (''C'', 5)]"
proof -
  have h: "is_path exampleGraph ''A'' [(''B'', 10), (''C'', 5)] ''C''"
    by code_simp
  have v: "bfs exampleGraph ''A'' ''C''
       = ([Visit ''A'' [''A''] (Some []) None,
           Visit ''B'' [''A'', ''B'', ''C''] (Some [''C'']) None,
           Visit ''C'' [''A'', ''B'', ''C''] (Some []) None]
          @ [Done [''A'', ''C''] [''A'', ''B'', ''C''] None], Returned)"
    by code_simp
  from bfs_fewest_edges [OF h] obtain evs path vis where
    b: "bfs exampleGraph ''A'' ''C'' = (evs @ [Done path vis None], Returned)"
    and m: "\<forall>p. is_path exampleGraph ''A'' p ''C'' \<longrightarrow> length path - 1 \<le> length p"
    by blast
  from b v have "path = [''A'', ''C'']" by simp
  with m h have "length [''A'', ''C''] - 1 \<le> length [(''B'', 10 :: int), (''C'', 5)]" by blast
  with h v show ?thesis by blast
qed

section \<open>Dijkstra returns a shortest path when its sums are exact\<close>

text \<open>
  What the distance map needs of the graph: every neighbour is the \<open>id\<close> of a node, so
  that it has an entry in \<open>dist\<close>. Graphs made by \<open>addNode\<close> and \<open>addEdge\<close> are so.
\<close>

definition neighbors_known :: "graph \<Rightarrow> bool" where
  "neighbors_known g = (\<forall>u. \<forall>e \<in> set (getNeighbors g u). fst e \<in> node_id ` set (getAllNodes g))"

lemma path_weight_Nil [simp]: "path_weight [] = 0"
  by (simp add: path_weight_def)

lemma path_weight_Cons [simp]: "path_weight (e # p) = snd e + path_weight p"
  by (simp add: path_weight_def)

lemma path_weight_append [simp]: "path_weight (p @ q) = path_weight p + path_weight q"
  by (simp add: path_weight_def)

lemma path_weight_nonneg:
  "nonneg_weights g \<Longrightarrow> is_path g a p b \<Longrightarrow> 0 \<le> path_weight p"
proof (induction p arbitrary: a)
  case Nil
  then show ?case by simp
next
  case (Cons e p)
  then have "0 \<le> snd e" "0 \<le> path_weight p" by (auto simp: nonneg_weights_def)
  then show ?case by simp
qed

text \<open>
  The sums Dijkstra forms are \<open>currentDist + weight\<close> for a node taken from the heap and
  an edge that leaves it. \<open>exact_sums\<close>: for every node, the weight of a shortest path to
  it plus the weight of any edge that leaves it is a double, so that the sum is not
  rounded. It is so when these sums are at most \<open>2^53\<close>.
\<close>

definition exact_sums :: "graph \<Rightarrow> id \<Rightarrow> bool" where
  "exact_sums g s =
     (\<forall>u p e. is_path g s p u \<and> (\<forall>q. is_path g s q u \<longrightarrow> path_weight p \<le> path_weight q)
        \<and> e \<in> set (getNeighbors g u)
        \<longrightarrow> nearest_double (path_weight p + snd e) = Fin (path_weight p + snd e))"

lemma double_ulp_small: "m < 2 ^ 53 \<Longrightarrow> double_ulp m = 1"
  by (subst double_ulp.simps) simp

lemma nearest_double_small:
  assumes "\<bar>n\<bar> \<le> 2 ^ 53"
  shows "nearest_double n = Fin n"
proof (cases "\<bar>n\<bar> < 2 ^ 53")
  case True
  then have "round_half_even \<bar>n\<bar> (double_ulp \<bar>n\<bar>) = \<bar>n\<bar>"
    by (simp add: double_ulp_small round_half_even_def)
  moreover have "\<bar>n\<bar> < 2 ^ 1024" using True by (rule less_trans) simp
  ultimately show ?thesis by (simp add: nearest_double_def Let_def)
next
  case False
  with assms have n: "\<bar>n\<bar> = 2 ^ 53" by simp
  have "double_ulp (2 ^ 53) = 2 * double_ulp (2 ^ 52)"
    by (subst double_ulp.simps) simp
  also have "\<dots> = 2" by (simp add: double_ulp_small)
  finally have "round_half_even \<bar>n\<bar> (double_ulp \<bar>n\<bar>) = \<bar>n\<bar>"
    by (simp add: n round_half_even_def)
  moreover have "\<bar>n\<bar> < 2 ^ 1024" unfolding n by simp
  ultimately show ?thesis by (simp add: nearest_double_def Let_def)
qed

lemma exact_sums_bounded:
  assumes nn: "nonneg_weights g"
    and b: "\<And>u p e. is_path g s p u \<Longrightarrow> (\<forall>q. is_path g s q u \<longrightarrow> path_weight p \<le> path_weight q)
              \<Longrightarrow> e \<in> set (getNeighbors g u) \<Longrightarrow> path_weight p + snd e \<le> 2 ^ 53"
  shows "exact_sums g s"
  unfolding exact_sums_def
proof (intro allI impI, elim conjE)
  fix u p e
  assume p: "is_path g s p u" and m: "\<forall>q. is_path g s q u \<longrightarrow> path_weight p \<le> path_weight q"
    and e: "e \<in> set (getNeighbors g u)"
  have "0 \<le> path_weight p" using nn p by (rule path_weight_nonneg)
  moreover have "0 \<le> snd e" using nn e by (auto simp: nonneg_weights_def)
  moreover note b [OF p m e]
  ultimately have "\<bar>path_weight p + snd e\<bar> \<le> 2 ^ 53" by simp
  then show "nearest_double (path_weight p + snd e) = Fin (path_weight p + snd e)"
    by (rule nearest_double_small)
qed

lemma num_lt_Fin: "num_lt (Fin a) x = lt_num a x"
proof (cases x)
  case None
  then show ?thesis by simp
next
  case (Some n)
  then show ?thesis by (cases n) simp_all
qed

text \<open>The parts of the loop invariant. \<open>dists\<close> and \<open>parent\<close> are read through \<open>Map_get\<close>.\<close>

definition inv_known :: "graph \<Rightarrow> (id \<times> int num) list \<Rightarrow> bool" where
  "inv_known g dists = (\<forall>x. \<forall>e \<in> set (getNeighbors g x). Map_get dists (fst e) \<noteq> None)"

text \<open>No distance is \<open>-Infinity\<close>, and every priority in the heap is finite.\<close>

definition inv_finite :: "(int num \<times> id) list \<Rightarrow> (id \<times> int num) list \<Rightarrow> bool" where
  "inv_finite heap dists =
     ((\<forall>v. Map_get dists v \<noteq> Some NegInfinity) \<and> (\<forall>t \<in> set heap. \<exists>d. fst t = Fin d))"

text \<open>The heap entries, with their priorities as integers.\<close>

definition fin_entries :: "(int num \<times> id) list \<Rightarrow> (int \<times> id) set" where
  "fin_entries heap = {(d, v). (Fin d, v) \<in> set heap}"

text \<open>A finite distance is the weight of some path from the start.\<close>

definition inv_reach :: "graph \<Rightarrow> id \<Rightarrow> (id \<times> int num) list \<Rightarrow> bool" where
  "inv_reach g s dists =
     (\<forall>v d. Map_get dists v = Some (Fin d) \<longrightarrow> (\<exists>p. is_path g s p v \<and> path_weight p = d))"

text \<open>A visited node has its final distance: no path from the start weighs less.\<close>

definition inv_settled :: "graph \<Rightarrow> id \<Rightarrow> id set \<Rightarrow> (id \<times> int num) list \<Rightarrow> bool" where
  "inv_settled g s S dists =
     (\<forall>v \<in> S. \<exists>d. Map_get dists v = Some (Fin d) \<and> (\<forall>p. is_path g s p v \<longrightarrow> d \<le> path_weight p))"

text \<open>A heap entry is never below the present distance of its node.\<close>

definition inv_heap :: "(int \<times> id) set \<Rightarrow> (id \<times> int num) list \<Rightarrow> bool" where
  "inv_heap H dists = (\<forall>(d, v) \<in> H. \<exists>d'. Map_get dists v = Some (Fin d') \<and> d' \<le> d)"

text \<open>The present distance of an unvisited node is in the heap.\<close>

definition inv_front :: "(int \<times> id) set \<Rightarrow> id set \<Rightarrow> (id \<times> int num) list \<Rightarrow> bool" where
  "inv_front H S dists = (\<forall>v d. Map_get dists v = Some (Fin d) \<and> v \<notin> S \<longrightarrow> (d, v) \<in> H)"

text \<open>
  Every edge out of a visited node has been relaxed, except the edges of the node \<open>u\<close>
  being expanded that are still to do.
\<close>

definition inv_relaxed :: "graph \<Rightarrow> id \<Rightarrow> adj list \<Rightarrow> id set \<Rightarrow> (id \<times> int num) list \<Rightarrow> bool" where
  "inv_relaxed g u todo S dists =
     (\<forall>x \<in> S. \<forall>e \<in> set (getNeighbors g x).
        (x = u \<and> e \<in> set todo)
        \<or> (\<forall>dx. Map_get dists x = Some (Fin dx)
              \<longrightarrow> (\<exists>dv. Map_get dists (fst e) = Some (Fin dv) \<and> dv \<le> dx + snd e)))"

text \<open>Before the first pop only the start has a distance, and its parent is \<open>null\<close>.\<close>

definition inv_first :: "id \<Rightarrow> id set \<Rightarrow> (id \<times> int num) list \<Rightarrow> (id \<times> id option) list \<Rightarrow> bool" where
  "inv_first s S dists parent =
     (s \<in> S \<or> (S = {} \<and> (\<forall>v d. Map_get dists v = Some (Fin d) \<longrightarrow> v = s)
                  \<and> Map_get parent s = Some None))"

text \<open>
  An unvisited node with a distance has a visited parent; its distance is the parent's
  distance plus the weight of an edge from the parent to it.
\<close>

definition inv_parent ::
  "graph \<Rightarrow> id \<Rightarrow> id set \<Rightarrow> (id \<times> int num) list \<Rightarrow> (id \<times> id option) list \<Rightarrow> bool" where
  "inv_parent g s S dists parent =
     (\<forall>v d. Map_get dists v = Some (Fin d) \<and> v \<notin> S \<and> s \<in> S
        \<longrightarrow> (\<exists>x \<in> S. \<exists>dx w. Map_get parent v = Some (Some x) \<and> (v, w) \<in> set (getNeighbors g x)
               \<and> Map_get dists x = Some (Fin dx) \<and> d = dx + w))"

text \<open>
  The parent chain of a visited node is the list of nodes of a path from the start
  through visited nodes, and the weight of that path is the distance of the node.
\<close>

definition inv_chain ::
  "graph \<Rightarrow> id \<Rightarrow> id set \<Rightarrow> (id \<times> int num) list \<Rightarrow> (id \<times> id option) list \<Rightarrow> bool" where
  "inv_chain g s S dists parent =
     (\<forall>v \<in> S. \<exists>p. chain parent v (s # map fst p) \<and> set (s # map fst p) \<subseteq> S \<and> is_path g s p v
               \<and> Map_get dists v = Some (Fin (path_weight p)))"

definition dij_inv ::
  "graph \<Rightarrow> id \<Rightarrow> id \<Rightarrow> id \<Rightarrow> adj list \<Rightarrow> (int num \<times> id) list \<Rightarrow> id list \<Rightarrow> (id \<times> int num) list
     \<Rightarrow> (id \<times> id option) list \<Rightarrow> bool" where
  "dij_inv g s e u todo heap visited dists parent =
     (heap_prop heap \<and> e \<notin> set visited \<and> inv_finite heap dists
      \<and> inv_known g dists \<and> Map_get dists s = Some (Fin 0)
      \<and> inv_reach g s dists \<and> inv_settled g s (set visited) dists
      \<and> inv_heap (fin_entries heap) dists \<and> inv_front (fin_entries heap) (set visited) dists
      \<and> inv_relaxed g u todo (set visited) dists
      \<and> inv_first s (set visited) dists parent
      \<and> inv_parent g s (set visited) dists parent
      \<and> inv_chain g s (set visited) dists parent)"

lemma fin_entries_insert:
  "set heap' = insert (Fin d, v) (set heap) \<Longrightarrow> fin_entries heap' = insert (d, v) (fin_entries heap)"
  by (auto simp: fin_entries_def)

lemma fin_entries_mono: "set heap1 \<subseteq> set heap \<Longrightarrow> fin_entries heap1 \<subseteq> fin_entries heap"
  by (auto simp: fin_entries_def)

lemma pop_heap_min:
  assumes "heap_prop heap" "pop heap = (Some t, heap1)"
  shows "set heap = insert t (set heap1)" "heap_prop heap1" "\<forall>x \<in> set heap. fst t \<le> fst x"
    "heap \<noteq> []"
proof -
  show ne: "heap \<noteq> []" using assms(2) by auto
  from pop_cases [OF assms(2)] ne have t: "t = hd heap" and s: "set heap = insert (hd heap) (set heap1)"
    by auto
  show "set heap = insert t (set heap1)" using s t by simp
  show "heap_prop heap1" using heap_prop_pop [OF assms(1)] assms(2) by simp
  show "\<forall>x \<in> set heap. fst t \<le> fst x"
  proof
    fix x assume "x \<in> set heap"
    then obtain i where "i < length heap" "heap ! i = x" by (auto simp: in_set_conv_nth)
    with heap_root_min [OF assms(1), of i] ne t show "fst t \<le> fst x" by (simp add: hd_conv_nth)
  qed
qed

lemma inv_relaxedD:
  assumes "inv_relaxed g u [] S dists" "x \<in> S" "e \<in> set (getNeighbors g x)"
    "Map_get dists x = Some (Fin dx)"
  shows "\<exists>dv. Map_get dists (fst e) = Some (Fin dv) \<and> dv \<le> dx + snd e"
proof -
  from assms(1,2,3) have "\<forall>dx. Map_get dists x = Some (Fin dx)
              \<longrightarrow> (\<exists>dv. Map_get dists (fst e) = Some (Fin dv) \<and> dv \<le> dx + snd e)"
    unfolding inv_relaxed_def by fastforce
  with assms(4) show ?thesis by blast
qed

lemma dij_skip:
  assumes inv: "dij_inv g s e u [] heap visited dists parent"
    and po: "pop heap = (Some (k, c), heap1)" and cv: "c \<in> set visited"
  shows "dij_inv g s e u [] heap1 visited dists parent"
proof -
  have hp: "heap_prop heap" using inv by (simp add: dij_inv_def)
  note pm = pop_heap_min [OF hp po]
  have sub: "set heap1 \<subseteq> set heap" using pm(1) by auto
  have "inv_finite heap1 dists"
    using inv sub by (auto simp: dij_inv_def inv_finite_def)
  moreover have "inv_heap (fin_entries heap1) dists"
    using inv fin_entries_mono [OF sub] by (auto simp: dij_inv_def inv_heap_def)
  moreover have "inv_front (fin_entries heap1) (set visited) dists"
    unfolding inv_front_def
  proof (intro allI impI)
    fix v d assume a: "Map_get dists v = Some (Fin d) \<and> v \<notin> set visited"
    then have "(d, v) \<in> fin_entries heap" using inv by (simp add: dij_inv_def inv_front_def)
    then have "(Fin d, v) \<in> set heap" by (simp add: fin_entries_def)
    moreover have "(Fin d, v) \<noteq> (k, c)" using a cv by auto
    ultimately have "(Fin d, v) \<in> set heap1" using pm(1) by auto
    then show "(d, v) \<in> fin_entries heap1" by (simp add: fin_entries_def)
  qed
  ultimately show ?thesis using inv pm(2) by (simp add: dij_inv_def)
qed


lemma dij_visit:
  assumes inv: "dij_inv g s e u [] heap visited dists parent"
    and po: "pop heap = (Some (Fin cd, c), heap1)" and cv: "c \<notin> set visited"
    and nn: "nonneg_weights g"
  shows "Map_get dists c = Some (Fin cd)"
    and "\<forall>p. is_path g s p c \<longrightarrow> cd \<le> path_weight p"
    and "\<exists>p. chain parent c (s # map fst p) \<and> is_path g s p c \<and> path_weight p = cd"
    and "c \<noteq> e \<Longrightarrow> dij_inv g s e c (getNeighbors g c) heap1 (Set_add visited c) dists parent"
proof -
  let ?S = "set visited"
  have hp: "heap_prop heap" and eS: "e \<notin> ?S" and kn: "inv_known g dists"
    and fn: "inv_finite heap dists"
    and st: "Map_get dists s = Some (Fin 0)" and re: "inv_reach g s dists"
    and se: "inv_settled g s ?S dists" and he: "inv_heap (fin_entries heap) dists"
    and fr: "inv_front (fin_entries heap) ?S dists" and rl: "inv_relaxed g u [] ?S dists"
    and fi: "inv_first s ?S dists parent" and pa: "inv_parent g s ?S dists parent"
    and ch: "inv_chain g s ?S dists parent"
    using inv by (simp_all add: dij_inv_def)
  note pm = pop_heap_min [OF hp po]
  have sub: "set heap1 \<subseteq> set heap" using pm(1) by auto
  have cin: "(cd, c) \<in> fin_entries heap" using pm(1) by (simp add: fin_entries_def)
  have mn: "cd \<le> d" if "(d, v) \<in> fin_entries heap" for d v
  proof -
    from that have "(Fin d, v) \<in> set heap" by (simp add: fin_entries_def)
    with pm(3) have "fst (Fin cd, c) \<le> fst (Fin d, v)" by blast
    then show ?thesis by simp
  qed
  from he cin obtain d' where d': "Map_get dists c = Some (Fin d')" "d' \<le> cd"
    by (auto simp: inv_heap_def)
  from fr d'(1) cv have "(d', c) \<in> fin_entries heap" by (simp add: inv_front_def)
  from mn [OF this] d' show dc: "Map_get dists c = Some (Fin cd)" by simp
  show opt: "\<forall>p. is_path g s p c \<longrightarrow> cd \<le> path_weight p"
  proof (intro allI impI)
    fix p assume p: "is_path g s p c"
    show "cd \<le> path_weight p"
    proof (cases "s \<in> ?S")
      case False
      from fr st False have "(0, s) \<in> fin_entries heap" by (simp add: inv_front_def)
      from mn [OF this] path_weight_nonneg [OF nn p] show ?thesis by simp
    next
      case True
      from path_crossing [OF p True cv] obtain p1 x y p2 where
        pp: "p = p1 @ y # p2" and p1: "is_path g s p1 x" and x: "x \<in> ?S"
        and y: "y \<in> set (getNeighbors g x)" "fst y \<notin> ?S" by blast
      from se x p1 obtain dx where dx: "Map_get dists x = Some (Fin dx)" "dx \<le> path_weight p1"
        by (auto simp: inv_settled_def)
      from inv_relaxedD [OF rl x y(1) dx(1)]
      obtain dv where dv: "Map_get dists (fst y) = Some (Fin dv)" "dv \<le> dx + snd y"
        by blast
      from fr dv(1) y(2) have "(dv, fst y) \<in> fin_entries heap" by (simp add: inv_front_def)
      from mn [OF this] have "cd \<le> dv" .
      moreover have "is_path g (fst y) p2 c" using p by (auto simp: pp is_path_append)
      then have "0 \<le> path_weight p2" by (rule path_weight_nonneg [OF nn])
      ultimately show ?thesis using dx(2) dv(2) by (simp add: pp)
    qed
  qed
  have cch: "\<exists>p. chain parent c (s # map fst p) \<and> set (s # map fst p) \<subseteq> insert c ?S
               \<and> is_path g s p c \<and> path_weight p = cd"
  proof (cases "s \<in> ?S")
    case False
    with fi have cs: "c = s" and ps: "Map_get parent s = Some None" using dc by (auto simp: inv_first_def)
    from cs st dc have "cd = 0" by simp
    with cs ps have "chain parent c (s # map fst []) \<and> set (s # map fst []) \<subseteq> insert c ?S
               \<and> is_path g s [] c \<and> path_weight [] = cd"
      by (simp add: chain_root)
    then show ?thesis by blast
  next
    case True
    with pa dc cv obtain x dx w where x: "x \<in> ?S" "Map_get parent c = Some (Some x)"
      "(c, w) \<in> set (getNeighbors g x)" "Map_get dists x = Some (Fin dx)" "cd = dx + w"
      unfolding inv_parent_def by blast
    from ch x(1) obtain p where p: "chain parent x (s # map fst p)" "set (s # map fst p) \<subseteq> ?S"
      "is_path g s p x" "Map_get dists x = Some (Fin (path_weight p))"
      unfolding inv_chain_def by blast
    from p(4) x(4) have dxp: "dx = path_weight p" by simp
    have "chain parent c ((s # map fst p) @ [c])" using x(2) p(1) by (rule chain_step)
    then have "chain parent c (s # map fst (p @ [(c, w)]))" by simp
    moreover have "set (s # map fst (p @ [(c, w)])) \<subseteq> insert c ?S" using p(2) by auto
    moreover have "is_path g s (p @ [(c, w)]) c" using p(3) x(3) by (auto simp: is_path_append)
    moreover have "path_weight (p @ [(c, w)]) = cd" using dxp x(5) by simp
    ultimately show ?thesis by blast
  qed
  then show "\<exists>p. chain parent c (s # map fst p) \<and> is_path g s p c \<and> path_weight p = cd" by blast
  assume ce: "c \<noteq> e"
  let ?S1 = "set (Set_add visited c)"
  have S1: "?S1 = insert c ?S" by (simp add: set_Set_add)
  have sS1: "s \<in> ?S1"
  proof (cases "s \<in> ?S")
    case False
    with fi dc have "c = s" by (auto simp: inv_first_def)
    then show ?thesis unfolding S1 by simp
  qed (simp add: S1)
  have 0: "inv_finite heap1 dists" using fn sub by (auto simp: inv_finite_def)
  have 1: "inv_settled g s ?S1 dists"
    using se dc opt by (auto simp: inv_settled_def S1)
  have 2: "inv_heap (fin_entries heap1) dists"
    using he fin_entries_mono [OF sub] by (auto simp: inv_heap_def)
  have 3: "inv_front (fin_entries heap1) ?S1 dists"
    unfolding inv_front_def
  proof (intro allI impI)
    fix v d assume a: "Map_get dists v = Some (Fin d) \<and> v \<notin> ?S1"
    then have "(d, v) \<in> fin_entries heap" using fr by (simp add: inv_front_def S1)
    then have "(Fin d, v) \<in> set heap" by (simp add: fin_entries_def)
    moreover have "(Fin d, v) \<noteq> (Fin cd, c)" using a by (auto simp: S1)
    ultimately have "(Fin d, v) \<in> set heap1" using pm(1) by auto
    then show "(d, v) \<in> fin_entries heap1" by (simp add: fin_entries_def)
  qed
  have 4: "inv_relaxed g c (getNeighbors g c) ?S1 dists"
    using rl by (auto simp: inv_relaxed_def S1)
  have 5: "inv_first s ?S1 dists parent" using sS1 by (simp add: inv_first_def)
  have 6: "inv_parent g s ?S1 dists parent"
    unfolding inv_parent_def
  proof (intro allI impI)
    fix v d assume a: "Map_get dists v = Some (Fin d) \<and> v \<notin> ?S1 \<and> s \<in> ?S1"
    have "s \<in> ?S"
    proof (rule ccontr)
      assume "s \<notin> ?S"
      with fi a dc have "v = s" "c = s" by (auto simp: inv_first_def)
      with a show False unfolding S1 by simp
    qed
    with pa a obtain x dx w where "x \<in> ?S" "Map_get parent v = Some (Some x)"
      "(v, w) \<in> set (getNeighbors g x)" "Map_get dists x = Some (Fin dx)" "d = dx + w"
      unfolding inv_parent_def S1 by blast
    then show "\<exists>x \<in> ?S1. \<exists>dx w. Map_get parent v = Some (Some x) \<and> (v, w) \<in> set (getNeighbors g x)
               \<and> Map_get dists x = Some (Fin dx) \<and> d = dx + w"
      unfolding S1 by blast
  qed
  have 7: "inv_chain g s ?S1 dists parent"
    unfolding inv_chain_def
  proof
    fix v assume "v \<in> ?S1"
    then consider "v = c" | "v \<in> ?S" by (auto simp: S1)
    then show "\<exists>p. chain parent v (s # map fst p) \<and> set (s # map fst p) \<subseteq> ?S1 \<and> is_path g s p v
               \<and> Map_get dists v = Some (Fin (path_weight p))"
    proof cases
      case 1
      from cch obtain p where "chain parent c (s # map fst p)" "set (s # map fst p) \<subseteq> insert c ?S"
        "is_path g s p c" "path_weight p = cd" by blast
      with dc 1 have "chain parent v (s # map fst p) \<and> set (s # map fst p) \<subseteq> ?S1 \<and> is_path g s p v
               \<and> Map_get dists v = Some (Fin (path_weight p))"
        unfolding S1 by simp
      then show ?thesis by blast
    next
      case 2
      with ch obtain p where "chain parent v (s # map fst p)" "set (s # map fst p) \<subseteq> ?S"
        "is_path g s p v" "Map_get dists v = Some (Fin (path_weight p))"
        unfolding inv_chain_def by blast
      then have "chain parent v (s # map fst p) \<and> set (s # map fst p) \<subseteq> ?S1 \<and> is_path g s p v
               \<and> Map_get dists v = Some (Fin (path_weight p))"
        unfolding S1 by auto
      then show ?thesis by blast
    qed
  qed
  have "e \<notin> ?S1" using eS ce by (simp add: S1)
  then show "dij_inv g s e c (getNeighbors g c) heap1 (Set_add visited c) dists parent"
    unfolding dij_inv_def using pm(2) kn st re 0 1 2 3 4 5 6 7 by blast
qed

lemma inv_relaxed_next:
  assumes rl: "inv_relaxed g c ((v, w) # rest) S dists"
    and now: "\<And>dx. Map_get dists c = Some (Fin dx)
                \<Longrightarrow> \<exists>dv. Map_get dists v = Some (Fin dv) \<and> dv \<le> dx + w"
  shows "inv_relaxed g c rest S dists"
  unfolding inv_relaxed_def
proof (intro ballI)
  fix x e assume x: "x \<in> S" and e: "e \<in> set (getNeighbors g x)"
  from rl x e have "(x = c \<and> e \<in> set ((v, w) # rest))
        \<or> (\<forall>dx. Map_get dists x = Some (Fin dx)
              \<longrightarrow> (\<exists>dv. Map_get dists (fst e) = Some (Fin dv) \<and> dv \<le> dx + snd e))"
    unfolding inv_relaxed_def by blast
  then show "(x = c \<and> e \<in> set rest)
        \<or> (\<forall>dx. Map_get dists x = Some (Fin dx)
              \<longrightarrow> (\<exists>dv. Map_get dists (fst e) = Some (Fin dv) \<and> dv \<le> dx + snd e))"
    using now by fastforce
qed

lemma dij_relax_keep:
  assumes inv: "dij_inv g s e c ((v, w) # rest) heap visited dists parent"
    and dc: "Map_get dists c = Some (Fin cd)"
    and vw: "(v, w) \<in> set (getNeighbors g c)"
    and br: "v \<in> set visited \<or> \<not> lt_num (cd + w) (Map_get dists v)"
  shows "dij_inv g s e c rest heap visited dists parent"
proof -
  have kn: "inv_known g dists" and re: "inv_reach g s dists"
    and se: "inv_settled g s (set visited) dists" and fn: "inv_finite heap dists"
    and rl: "inv_relaxed g c ((v, w) # rest) (set visited) dists"
    using inv by (simp_all add: dij_inv_def)
  have "\<exists>dv. Map_get dists v = Some (Fin dv) \<and> dv \<le> cd + w"
  proof (cases "v \<in> set visited")
    case True
    from re dc obtain p where p: "is_path g s p c" "path_weight p = cd"
      unfolding inv_reach_def by blast
    have "is_path g s (p @ [(v, w)]) v" using p(1) vw by (auto simp: is_path_append)
    moreover from se True obtain dv where dv: "Map_get dists v = Some (Fin dv)"
      "\<forall>q. is_path g s q v \<longrightarrow> dv \<le> path_weight q" unfolding inv_settled_def by blast
    ultimately have "dv \<le> path_weight (p @ [(v, w)])" by blast
    with dv(1) p(2) show ?thesis by simp
  next
    case False
    with br have nl: "\<not> lt_num (cd + w) (Map_get dists v)" by simp
    from kn vw have "Map_get dists v \<noteq> None" unfolding inv_known_def by force
    then obtain n where n: "Map_get dists v = Some n" by blast
    from fn n have "n \<noteq> NegInfinity" by (auto simp: inv_finite_def)
    then show ?thesis using nl by (cases n) (simp_all add: n)
  qed
  then have "inv_relaxed g c rest (set visited) dists"
    using inv_relaxed_next [OF rl] dc by simp
  then show ?thesis using inv by (simp add: dij_inv_def)
qed


lemma dij_relax_update:
  assumes inv: "dij_inv g s e c ((v, w) # rest) heap visited dists parent"
    and cS: "c \<in> set visited"
    and dc: "Map_get dists c = Some (Fin cd)"
    and vw: "(v, w) \<in> set (getNeighbors g c)"
    and vS: "v \<notin> set visited"
    and lt: "lt_num (cd + w) (Map_get dists v)"
  shows "dij_inv g s e c rest (push heap (Fin (cd + w), v)) visited
           (Map_set v (Fin (cd + w)) dists) (Map_set v (Some c) parent)"
    and "Map_get (Map_set v (Fin (cd + w)) dists) c = Some (Fin cd)"
proof -
  let ?S = "set visited" and ?D = "Map_set v (Fin (cd + w)) dists"
  let ?P = "Map_set v (Some c) parent" and ?H = "push heap (Fin (cd + w), v)"
  have hp: "heap_prop heap" and eS: "e \<notin> ?S" and kn: "inv_known g dists"
    and fn: "inv_finite heap dists"
    and st: "Map_get dists s = Some (Fin 0)" and re: "inv_reach g s dists"
    and se: "inv_settled g s ?S dists" and he: "inv_heap (fin_entries heap) dists"
    and fr: "inv_front (fin_entries heap) ?S dists" and rl: "inv_relaxed g c ((v, w) # rest) ?S dists"
    and fi: "inv_first s ?S dists parent" and pa: "inv_parent g s ?S dists parent"
    and ch: "inv_chain g s ?S dists parent"
    using inv by (simp_all add: dij_inv_def)
  have sS: "s \<in> ?S" using fi cS by (auto simp: inv_first_def)
  have vc: "v \<noteq> c" "v \<noteq> s" using vS cS sS by auto
  have D: "Map_get ?D k = (if k = v then Some (Fin (cd + w)) else Map_get dists k)" for k
    by (simp add: Map_get_Map_set)
  have P: "Map_get ?P k = (if k = v then Some (Some c) else Map_get parent k)" for k
    by (simp add: Map_get_Map_set)
  have Hs: "set ?H = insert (Fin (cd + w), v) (set heap)" by (rule set_push)
  have H: "fin_entries ?H = insert (cd + w, v) (fin_entries heap)"
    using Hs by (rule fin_entries_insert)
  have old: "cd + w < dv" if "Map_get dists v = Some (Fin dv)" for dv
    using lt that by simp
  show "Map_get ?D c = Some (Fin cd)" using dc vc by (simp add: D)
  have 0: "heap_prop ?H" using hp by (rule heap_prop_push)
  have 00: "inv_finite ?H ?D" using fn unfolding inv_finite_def Hs by (auto simp: D)
  have 1: "inv_known g ?D" using kn by (simp add: inv_known_def D)
  have 2: "Map_get ?D s = Some (Fin 0)" using st vc by (simp add: D)
  have 3: "inv_reach g s ?D"
    unfolding inv_reach_def
  proof (intro allI impI)
    fix k d assume a: "Map_get ?D k = Some (Fin d)"
    show "\<exists>p. is_path g s p k \<and> path_weight p = d"
    proof (cases "k = v")
      case True
      from re dc obtain p where p: "is_path g s p c" "path_weight p = cd"
        unfolding inv_reach_def by blast
      have "is_path g s (p @ [(v, w)]) v \<and> path_weight (p @ [(v, w)]) = cd + w"
        using p vw by (auto simp: is_path_append)
      with a True show ?thesis unfolding D by auto
    next
      case False
      with a re show ?thesis unfolding inv_reach_def D by simp
    qed
  qed
  have 4: "inv_settled g s ?S ?D"
    unfolding inv_settled_def
  proof
    fix k assume k: "k \<in> ?S"
    then have "k \<noteq> v" using vS by auto
    with se k show "\<exists>d. Map_get ?D k = Some (Fin d) \<and> (\<forall>p. is_path g s p k \<longrightarrow> d \<le> path_weight p)"
      unfolding inv_settled_def D by simp
  qed
  have 5: "inv_heap (fin_entries ?H) ?D"
    unfolding inv_heap_def H
  proof (intro ballI, clarify)
    fix d k assume a: "(d, k) \<in> insert (cd + w, v) (fin_entries heap)"
    show "\<exists>d'. Map_get ?D k = Some (Fin d') \<and> d' \<le> d"
    proof (cases "k = v")
      case True
      have "cd + w \<le> d"
      proof (cases "(d, k) = (cd + w, v)")
        case False
        with a have "(d, v) \<in> fin_entries heap" using True by simp
        with he obtain d' where "Map_get dists v = Some (Fin d')" "d' \<le> d"
          unfolding inv_heap_def by fastforce
        with old [of d'] show ?thesis by simp
      qed simp
      with True show ?thesis by (simp add: D)
    next
      case False
      with a have "(d, k) \<in> fin_entries heap" by auto
      with he obtain d' where "Map_get dists k = Some (Fin d')" "d' \<le> d"
        unfolding inv_heap_def by fastforce
      with False show ?thesis by (simp add: D)
    qed
  qed
  have 6: "inv_front (fin_entries ?H) ?S ?D"
    unfolding inv_front_def H
  proof (intro allI impI)
    fix k d assume a: "Map_get ?D k = Some (Fin d) \<and> k \<notin> ?S"
    show "(d, k) \<in> insert (cd + w, v) (fin_entries heap)"
    proof (cases "k = v")
      case True
      with a show ?thesis by (simp add: D)
    next
      case False
      with a fr show ?thesis unfolding inv_front_def D by simp
    qed
  qed
  have 7: "inv_relaxed g c rest ?S ?D"
    unfolding inv_relaxed_def
  proof (intro ballI)
    fix x ed assume x: "x \<in> ?S" and ed: "ed \<in> set (getNeighbors g x)"
    have xv: "x \<noteq> v" using x vS by auto
    from rl x ed consider "x = c" "ed = (v, w)" | "x = c" "ed \<in> set rest"
      | "\<forall>dx. Map_get dists x = Some (Fin dx)
              \<longrightarrow> (\<exists>dv. Map_get dists (fst ed) = Some (Fin dv) \<and> dv \<le> dx + snd ed)"
      unfolding inv_relaxed_def by fastforce
    then show "(x = c \<and> ed \<in> set rest)
        \<or> (\<forall>dx. Map_get ?D x = Some (Fin dx)
              \<longrightarrow> (\<exists>dv. Map_get ?D (fst ed) = Some (Fin dv) \<and> dv \<le> dx + snd ed))"
    proof cases
      case 1
      then show ?thesis using dc vc by (simp add: D)
    next
      case 2
      then show ?thesis by simp
    next
      case 3
      have "\<exists>dv. Map_get ?D (fst ed) = Some (Fin dv) \<and> dv \<le> dx + snd ed"
        if dx: "Map_get dists x = Some (Fin dx)" for dx
      proof -
        from 3 dx obtain dv where dv: "Map_get dists (fst ed) = Some (Fin dv)" "dv \<le> dx + snd ed"
          by blast
        show ?thesis
        proof (cases "fst ed = v")
          case True
          with old [of dv] dv show ?thesis by (simp add: D)
        next
          case False
          with dv show ?thesis by (simp add: D)
        qed
      qed
      then show ?thesis using xv by (simp add: D)
    qed
  qed
  have 8: "inv_first s ?S ?D ?P" using sS by (simp add: inv_first_def)
  have 9: "inv_parent g s ?S ?D ?P"
    unfolding inv_parent_def
  proof (intro allI impI)
    fix k d assume a: "Map_get ?D k = Some (Fin d) \<and> k \<notin> ?S \<and> s \<in> ?S"
    show "\<exists>x \<in> ?S. \<exists>dx w'. Map_get ?P k = Some (Some x) \<and> (k, w') \<in> set (getNeighbors g x)
               \<and> Map_get ?D x = Some (Fin dx) \<and> d = dx + w'"
    proof (cases "k = v")
      case True
      with a have "d = cd + w" by (simp add: D)
      with True cS vw dc vc have "c \<in> ?S \<and> Map_get ?P k = Some (Some c) \<and> (k, w) \<in> set (getNeighbors g c)
               \<and> Map_get ?D c = Some (Fin cd) \<and> d = cd + w"
        by (simp add: P D)
      then show ?thesis by blast
    next
      case False
      with a have "Map_get dists k = Some (Fin d) \<and> k \<notin> ?S \<and> s \<in> ?S" by (simp add: D)
      with pa obtain x dx w' where x: "x \<in> ?S" "Map_get parent k = Some (Some x)"
        "(k, w') \<in> set (getNeighbors g x)" "Map_get dists x = Some (Fin dx)" "d = dx + w'"
        unfolding inv_parent_def by blast
      from x(1) vS have "x \<noteq> v" by auto
      with x False have "x \<in> ?S \<and> Map_get ?P k = Some (Some x) \<and> (k, w') \<in> set (getNeighbors g x)
               \<and> Map_get ?D x = Some (Fin dx) \<and> d = dx + w'"
        by (simp add: P D)
      then show ?thesis by blast
    qed
  qed
  have 10: "inv_chain g s ?S ?D ?P"
    unfolding inv_chain_def
  proof
    fix k assume k: "k \<in> ?S"
    with ch obtain p where p: "chain parent k (s # map fst p)" "set (s # map fst p) \<subseteq> ?S"
      "is_path g s p k" "Map_get dists k = Some (Fin (path_weight p))"
      unfolding inv_chain_def by blast
    have "chain ?P k (s # map fst p)" using p(1)
    proof (rule chain_update)
      fix x assume "x \<in> set (s # map fst p)"
      with p(2) vS have "x \<noteq> v" by auto
      then show "Map_get ?P x = Map_get parent x" by (simp add: P)
    qed
    moreover from k vS have "k \<noteq> v" by auto
    ultimately have "chain ?P k (s # map fst p) \<and> set (s # map fst p) \<subseteq> ?S \<and> is_path g s p k
               \<and> Map_get ?D k = Some (Fin (path_weight p))"
      using p by (simp add: D)
    then show "\<exists>p. chain ?P k (s # map fst p) \<and> set (s # map fst p) \<subseteq> ?S \<and> is_path g s p k
               \<and> Map_get ?D k = Some (Fin (path_weight p))"
      by blast
  qed
  show "dij_inv g s e c rest ?H visited ?D ?P"
    unfolding dij_inv_def using 0 00 eS 1 2 3 4 5 6 7 8 9 10 by blast
qed

text \<open>
  The whole relaxation loop of a node \<open>c\<close> at distance \<open>cd\<close>, when each sum it forms is a
  double.
\<close>

lemma dij_relax_all:
  "dij_inv g s e c todo heap visited dists parent \<Longrightarrow> c \<in> set visited
     \<Longrightarrow> Map_get dists c = Some (Fin cd) \<Longrightarrow> set todo \<subseteq> set (getNeighbors g c)
     \<Longrightarrow> \<forall>a \<in> set todo. nearest_double (cd + snd a) = Fin (cd + snd a)
     \<Longrightarrow> dijkstra_for visited (Fin cd) c todo (dists, parent, heap) = (dists', parent', heap')
     \<Longrightarrow> dij_inv g s e c [] heap' visited dists' parent'"
proof (induction todo arbitrary: dists parent heap)
  case Nil
  then show ?case by simp
next
  case (Cons a rest)
  obtain v w where a: "a = (v, w)" by (cases a)
  have vw: "(v, w) \<in> set (getNeighbors g c)" and sub: "set rest \<subseteq> set (getNeighbors g c)"
    using Cons.prems(4) by (auto simp: a)
  have ex: "js_add (Fin cd) w = Fin (cd + w)"
    and exr: "\<forall>a \<in> set rest. nearest_double (cd + snd a) = Fin (cd + snd a)"
    using Cons.prems(5) by (simp_all add: a)
  note inv = Cons.prems(1) [unfolded a]
  show ?case
  proof (cases "v \<notin> set visited \<and> lt_num (cd + w) (Map_get dists v)")
    case True
    then have f: "dijkstra_for visited (Fin cd) c rest
                    (Map_set v (Fin (cd + w)) dists, Map_set v (Some c) parent, push heap (Fin (cd + w), v))
                  = (dists', parent', heap')"
      using Cons.prems(6) by (simp add: a Set_has_def Let_def ex num_lt_Fin del: js_add.simps)
    from dij_relax_update [OF inv Cons.prems(2,3) vw] True
    have "dij_inv g s e c rest (push heap (Fin (cd + w), v)) visited
           (Map_set v (Fin (cd + w)) dists) (Map_set v (Some c) parent)"
      and "Map_get (Map_set v (Fin (cd + w)) dists) c = Some (Fin cd)" by simp_all
    from Cons.IH [OF this(1) Cons.prems(2) this(2) sub exr f] show ?thesis .
  next
    case False
    then have f: "dijkstra_for visited (Fin cd) c rest (dists, parent, heap) = (dists', parent', heap')"
      using Cons.prems(6)
      by (auto simp: a Set_has_def Let_def ex num_lt_Fin simp del: js_add.simps split: if_splits)
    from False have "v \<in> set visited \<or> \<not> lt_num (cd + w) (Map_get dists v)" by blast
    from dij_relax_keep [OF inv Cons.prems(3) vw this]
    have "dij_inv g s e c rest heap visited dists parent" .
    from Cons.IH [OF this Cons.prems(2,3) sub exr f] show ?thesis .
  qed
qed

lemma dij_inv_any_node:
  "dij_inv g s e u [] heap visited dists parent \<Longrightarrow> dij_inv g s e u' [] heap visited dists parent"
  by (simp add: dij_inv_def inv_relaxed_def)

lemma dij_exhausted:
  assumes inv: "dij_inv g s e u [] [] visited dists parent" and p: "is_path g s p e"
  shows False
proof -
  have fr: "\<And>v d. Map_get dists v = Some (Fin d) \<Longrightarrow> v \<in> set visited"
    using inv by (auto simp: dij_inv_def inv_front_def fin_entries_def)
  have "Map_get dists s = Some (Fin 0)" using inv by (simp add: dij_inv_def)
  then have s: "s \<in> set visited" by (rule fr)
  have e: "e \<notin> set visited" using inv by (simp add: dij_inv_def)
  from path_crossing [OF p s e] obtain x y where
    x: "x \<in> set visited" and y: "y \<in> set (getNeighbors g x)" "fst y \<notin> set visited" by blast
  from inv x obtain dx where dx: "Map_get dists x = Some (Fin dx)"
    unfolding dij_inv_def inv_settled_def by blast
  have "inv_relaxed g u [] (set visited) dists" using inv by (simp add: dij_inv_def)
  from inv_relaxedD [OF this x y(1) dx] fr y(2) show False by blast
qed


lemma dijkstra_loop_shortest:
  "nonneg_weights g \<Longrightarrow> exact_sums g s \<Longrightarrow> is_path g s p0 e
     \<Longrightarrow> dij_inv g s e u [] heap visited dists parent \<Longrightarrow>
     \<exists>evs vis p. dijkstra_loop g e (heap, visited, dists, parent)
                    = (evs @ [Done (s # map fst p) vis (Some (Fin (path_weight p)))], Returned)
        \<and> is_path g s p e
        \<and> (\<forall>q. is_path g s q e \<longrightarrow> path_weight p \<le> path_weight q)"
proof (induction g e "(heap, visited, dists, parent)" arbitrary: u heap visited dists parent
       rule: dijkstra_loop.induct)
  case (1 g endId heap visited dists parent)
  note nn = "1.prems"(1) and ex = "1.prems"(2) and reach = "1.prems"(3) and inv = "1.prems"(4)
  show ?case
  proof (cases "heap = []")
    case True
    with inv reach dij_exhausted show ?thesis by blast
  next
    case ne: False
    then obtain k c heap1 where po0: "pop heap = (Some (k, c), heap1)" by (rule pop_nonempty_ex)
    have hp: "heap_prop heap" and fn: "inv_finite heap dists" using inv by (simp_all add: dij_inv_def)
    from pop_heap_min(1) [OF hp po0] have "(k, c) \<in> set heap" by simp
    with fn obtain cd where k: "k = Fin cd" by (auto simp: inv_finite_def)
    note po = po0 [unfolded k]
    have hs: "heap_size heap > 0" using ne by (simp add: heap_size_def)
    note step = dijkstra_loop_pop [OF ne po, of g endId visited dists parent]
    show ?thesis
    proof (cases "Set_has visited c")
      case True
      then have "c \<in> set visited" by (simp add: Set_has_def)
      from dij_skip [OF inv po this]
      have "dij_inv g s endId u [] heap1 visited dists parent" .
      from "1.hyps"(1) [OF hs po [symmetric] refl refl True nn ex reach this]
      show ?thesis unfolding step by (simp add: True)
    next
      case nv: False
      then have cv: "c \<notin> set visited" by (simp add: Set_has_def)
      note vis = dij_visit [OF inv po cv nn]
      from vis(3) obtain p where p: "chain parent c (s # map fst p)" "is_path g s p c"
        "path_weight p = cd" by blast
      show ?thesis
      proof (cases "c = endId")
        case True
        have "dijkstra_loop g endId (heap, visited, dists, parent)
                = ([Visit c (Set_add visited c) None (Some dists)]
                   @ [Done (s # map fst p) (Set_add visited c) (Some (Fin (path_weight p)))], Returned)"
          unfolding step using nv True vis(1) chain_reconstructPath [OF p(1)] p(3)
          by (simp add: finish_def yield_def)
        moreover have "is_path g s p endId" using p(2) True by simp
        moreover have "\<forall>q. is_path g s q endId \<longrightarrow> path_weight p \<le> path_weight q"
          using vis(2) p(3) True by simp
        ultimately show ?thesis by blast
      next
        case False
        obtain d' p' h' where f: "dijkstra_for (Set_add visited c) (Fin cd) c (getNeighbors g c)
            (dists, parent, heap1) = (d', p', h')"
          by (cases "dijkstra_for (Set_add visited c) (Fin cd) c (getNeighbors g c) (dists, parent, heap1)")
             auto
        have "c \<in> set (Set_add visited c)" by (simp add: set_Set_add)
        moreover have "\<forall>a \<in> set (getNeighbors g c). nearest_double (cd + snd a) = Fin (cd + snd a)"
        proof
          fix a assume "a \<in> set (getNeighbors g c)"
          moreover have "\<forall>q. is_path g s q c \<longrightarrow> path_weight p \<le> path_weight q"
            using vis(2) p(3) by simp
          ultimately have "nearest_double (path_weight p + snd a) = Fin (path_weight p + snd a)"
            using ex p(2) unfolding exact_sums_def by blast
          then show "nearest_double (cd + snd a) = Fin (cd + snd a)" by (simp add: p(3))
        qed
        ultimately have inv': "dij_inv g s endId c [] h' (Set_add visited c) d' p'"
          using dij_relax_all [OF vis(4) [OF False] _ vis(1) subset_refl _ f] by blast
        from "1.hyps"(2) [OF hs po [symmetric] refl refl nv refl False f [symmetric] refl nn ex reach inv']
        obtain evs vis' q where
          r: "dijkstra_loop g endId (h', Set_add visited c, d', p')
                = (evs @ [Done (s # map fst q) vis' (Some (Fin (path_weight q)))], Returned)"
          and pr: "is_path g s q endId"
            "\<forall>q'. is_path g s q' endId \<longrightarrow> path_weight q \<le> path_weight q'"
          by blast
        have "dijkstra_loop g endId (heap, visited, dists, parent)
                = ((Visit c (Set_add visited c) None (Some dists) # evs)
                   @ [Done (s # map fst q) vis' (Some (Fin (path_weight q)))], Returned)"
          unfolding step using nv False f r by (simp add: yield_def)
        with pr show ?thesis by blast
      qed
    qed
  qed
qed

lemma Map_get_fold_init:
  "Map_get (fold (\<lambda>node. Map_set (node_id node) x) ns m) k
     = (if k \<in> node_id ` set ns then Some x else Map_get m k)"
  by (induction ns arbitrary: m) (auto simp: Map_get_Map_set)

lemma dij_inv_init:
  assumes "neighbors_known g"
  shows "dij_inv g s e u [] [(Fin 0, s)] []
           (Map_set s (Fin 0) (fold (\<lambda>node. Map_set (node_id node) Infinity) (getAllNodes g) []))
           [(s, None)]"
proof -
  define D0 :: "(id \<times> int num) list"
    where "D0 = Map_set s (Fin 0) (fold (\<lambda>node. Map_set (node_id node) Infinity) (getAllNodes g) [])"
  have D: "Map_get D0 k = (if k = s then Some (Fin 0)
                           else if k \<in> node_id ` set (getAllNodes g) then Some Infinity else None)" for k
    by (simp add: D0_def Map_get_Map_set Map_get_fold_init) (simp add: Map_get_def)
  have fin: "k = s \<and> d = 0" if "Map_get D0 k = Some (Fin d)" for k and d :: int
    using that unfolding D by (simp split: if_splits)
  have F: "fin_entries [(Fin 0, s)] = {(0, s)}" by (auto simp: fin_entries_def)
  have 0: "heap_prop [(Fin (0 :: int), s)]" by (simp add: heap_prop_def)
  have 00: "inv_finite [(Fin 0, s)] D0" by (simp add: inv_finite_def D)
  have 1: "inv_known g D0" using assms unfolding inv_known_def neighbors_known_def D by auto
  have 2: "Map_get D0 s = Some (Fin 0)" by (simp add: D)
  have 3: "inv_reach g s D0"
    unfolding inv_reach_def
  proof (intro allI impI)
    fix v d assume "Map_get D0 v = Some (Fin d)"
    from fin [OF this] have "is_path g s [] v \<and> path_weight [] = d" by simp
    then show "\<exists>p. is_path g s p v \<and> path_weight p = d" by blast
  qed
  have 4: "inv_heap (fin_entries [(Fin 0, s)]) D0" unfolding F by (simp add: inv_heap_def D)
  have 5: "inv_front (fin_entries [(Fin 0, s)]) (set []) D0"
    unfolding F using fin by (auto simp: inv_front_def)
  have 6: "inv_first s (set []) D0 [(s, None)]"
    using fin by (auto simp: inv_first_def Map_get_def)
  have "dij_inv g s e u [] [(Fin 0, s)] [] D0 [(s, None)]"
    unfolding dij_inv_def using 0 00 1 2 3 4 5 6
    by (simp add: inv_settled_def inv_relaxed_def inv_parent_def inv_chain_def)
  then show ?thesis by (simp add: D0_def)
qed

lemma dijkstra_correct:
  assumes "neighbors_known g" "nonneg_weights g" "exact_sums g s" "is_path g s p0 e"
  shows "\<exists>evs vis p. dijkstra g s e
                        = (evs @ [Done (s # map fst p) vis (Some (Fin (path_weight p)))], Returned)
           \<and> is_path g s p e
           \<and> (\<forall>q. is_path g s q e \<longrightarrow> path_weight p \<le> path_weight q)"
proof -
  have "dijkstra g s e = dijkstra_loop g e ([(Fin 0, s)], [],
          Map_set s (Fin 0) (fold (\<lambda>node. Map_set (node_id node) Infinity) (getAllNodes g) []),
          [(s, None)])"
    by (simp add: dijkstra_def Let_def)
  with dijkstra_loop_shortest [OF assms(2,3,4) dij_inv_init [OF assms(1), of s e s]]
  show ?thesis by simp
qed

text \<open>Graphs made by \<open>addNode\<close> and \<open>addEdge\<close>: every node record carries its key, every neighbour is a key.\<close>

definition graph_wf :: "graph \<Rightarrow> bool" where
  "graph_wf g = ((\<forall>(k, n) \<in> set (nodes g). node_id n = k)
                 \<and> (\<forall>u. \<forall>e \<in> set (getNeighbors g u). Map_has (nodes g) (fst e)))"

lemma set_Map_set_subset: "set (Map_set k v m) \<subseteq> insert (k, v) (set m)"
  by (induction m) (auto split: if_splits)

lemma graph_wf_neighbors_known: "graph_wf g \<Longrightarrow> neighbors_known g"
  unfolding neighbors_known_def
proof (intro allI ballI)
  fix u e assume wf: "graph_wf g" and e: "e \<in> set (getNeighbors g u)"
  then have "fst e \<in> fst ` set (nodes g)" by (simp add: graph_wf_def Map_has_iff)
  then obtain n where n: "(fst e, n) \<in> set (nodes g)" by auto
  with wf have "node_id n = fst e" by (auto simp: graph_wf_def)
  with n show "fst e \<in> node_id ` set (getAllNodes g)" by (force simp: getAllNodes_def)
qed

lemma build_graph_wf: "build ops g0 = Inr g \<Longrightarrow> graph_wf g0 \<Longrightarrow> graph_wf g"
proof (induction ops g0 rule: build.induct)
  case (1 g0)
  then show ?case by simp
next
  case (2 i x y label type ops g0)
  have "graph_wf (addNode g0 i x y label type)"
    unfolding graph_wf_def
  proof (intro conjI ballI allI)
    fix kn assume "kn \<in> set (nodes (addNode g0 i x y label type))"
    then have "kn = (i, \<lparr>node_id = i, node_x = x, node_y = y, node_label = label, node_type = type\<rparr>)
               \<or> kn \<in> set (nodes g0)"
      using set_Map_set_subset by (fastforce simp: addNode_def)
    then show "case kn of (k, n) \<Rightarrow> node_id n = k"
      using "2.prems"(2) by (auto simp: graph_wf_def)
  next
    fix u e assume "e \<in> set (getNeighbors (addNode g0 i x y label type) u)"
    then have "Map_has (nodes g0) (fst e)"
      using "2.prems"(2) by (simp add: getNeighbors_addNode graph_wf_def)
    then show "Map_has (nodes (addNode g0 i x y label type)) (fst e)"
      by (simp add: addNode_def Map_has_Map_set)
  qed
  with 2 show ?case by simp
next
  case (3 u v w ops g0)
  then obtain g1 where g1: "addEdge g0 u v w = Inr g1" and b: "build ops g1 = Inr g"
    by (auto split: sum.splits)
  note ae = addEdge_Inr [OF g1]
  have "graph_wf g1"
    unfolding graph_wf_def ae(1)
  proof (intro conjI allI ballI)
    fix x e assume "e \<in> set (getNeighbors g1 x)"
    then have "e \<in> set (getNeighbors g0 x) \<or> fst e = v \<or> fst e = u"
      unfolding ae(2) by (auto split: if_splits)
    then show "Map_has (nodes g0) (fst e)"
      using "3.prems"(2) ae(3,4) by (auto simp: graph_wf_def)
  qed (use "3.prems"(2) in \<open>simp add: graph_wf_def\<close>)
  with 3 g1 b show ?case by simp
qed

lemma build_neighbors_known: "build ops Graph_new = Inr g \<Longrightarrow> neighbors_known g"
proof -
  assume b: "build ops Graph_new = Inr g"
  have "graph_wf Graph_new" by (simp add: graph_wf_def) (simp add: Graph_new_def)
  from graph_wf_neighbors_known [OF build_graph_wf [OF b this]] show ?thesis .
qed



text \<open>
  Two graphs on which a sum is not a double. On the first (\<open>A-B\<close> \<open>2^53 + 2\<close>, \<open>B-C\<close> \<open>1\<close>)
  the sum \<open>2^53 + 3\<close> is rounded to \<open>2^53 + 4\<close>; on the second (\<open>A-B\<close> and \<open>B-C\<close> both
  \<open>2^1023\<close>) the sum is \<open>Infinity\<close>, which is not less than the \<open>Infinity\<close> that \<open>dist\<close>
  holds for \<open>C\<close>, so that \<open>C\<close> is never put on the heap.
\<close>

definition oddOps :: "build_op list" where
  "oddOps = [AddNode ''A'' 0 0 ''A'' ''default'', AddNode ''B'' 1 0 ''B'' ''default'',
             AddNode ''C'' 2 0 ''C'' ''default'',
             AddEdge ''A'' ''B'' (Some (2 ^ 53 + 2)), AddEdge ''B'' ''C'' (Some 1)]"

definition oddGraph :: graph where
  "oddGraph =
     \<lparr>nodes = [(''A'', \<lparr>node_id = ''A'', node_x = 0, node_y = 0, node_label = ''A'', node_type = ''default''\<rparr>),
               (''B'', \<lparr>node_id = ''B'', node_x = 1, node_y = 0, node_label = ''B'', node_type = ''default''\<rparr>),
               (''C'', \<lparr>node_id = ''C'', node_x = 2, node_y = 0, node_label = ''C'', node_type = ''default''\<rparr>)],
      edges = [(''A'', [(''B'', 2 ^ 53 + 2)]),
               (''B'', [(''A'', 2 ^ 53 + 2), (''C'', 1)]),
               (''C'', [(''B'', 1)])]\<rparr>"

definition hugeOps :: "build_op list" where
  "hugeOps = [AddNode ''A'' 0 0 ''A'' ''default'', AddNode ''B'' 1 0 ''B'' ''default'',
              AddNode ''C'' 2 0 ''C'' ''default'',
              AddEdge ''A'' ''B'' (Some (2 ^ 1023)), AddEdge ''B'' ''C'' (Some (2 ^ 1023))]"

definition hugeGraph :: graph where
  "hugeGraph =
     \<lparr>nodes = [(''A'', \<lparr>node_id = ''A'', node_x = 0, node_y = 0, node_label = ''A'', node_type = ''default''\<rparr>),
               (''B'', \<lparr>node_id = ''B'', node_x = 1, node_y = 0, node_label = ''B'', node_type = ''default''\<rparr>),
               (''C'', \<lparr>node_id = ''C'', node_x = 2, node_y = 0, node_label = ''C'', node_type = ''default''\<rparr>)],
      edges = [(''A'', [(''B'', 2 ^ 1023)]),
               (''B'', [(''A'', 2 ^ 1023), (''C'', 2 ^ 1023)]),
               (''C'', [(''B'', 2 ^ 1023)])]\<rparr>"

lemma Math_round_of_int: "Math_round (real_of_int n) = n"
  unfolding Math_round_def by linarith

lemma Math_round_numeral: "Math_round (numeral k) = numeral k"
  using Math_round_of_int [of "numeral k"] by simp

text \<open>
  C1, as amended. On a graph whose neighbours are all nodes (as \<open>addEdge\<close> ensures), whose
  weights are non-negative and on which the sums Dijkstra forms are doubles (\<open>exact_sums\<close>;
  it is so when they are at most \<open>2^53\<close>), when the end is reachable from the start,
  Dijkstra returns after a Done event whose path is the list of nodes of a path from the
  start to the end, whose \<open>totalDistance\<close> is the weight of that path, and no path from
  the start to the end weighs less. On the three-node example (\<open>A-B\<close> 10, \<open>A-C\<close> 10,
  \<open>B-C\<close> 5) the search from \<open>A\<close> to \<open>C\<close> ends with \<open>totalDistance = 10\<close> and path \<open>[A, C]\<close>.
\<close>

theorem dijkstra_shortest:
  "(neighbors_known g \<and> nonneg_weights g \<and> exact_sums g startId \<and> is_path g startId p0 endId \<longrightarrow>
      (\<exists>evs vis p. dijkstra g startId endId
                      = (evs @ [Done (startId # map fst p) vis (Some (Fin (path_weight p)))], Returned)
          \<and> is_path g startId p endId
          \<and> (\<forall>q. is_path g startId q endId \<longrightarrow> path_weight p \<le> path_weight q)))
   \<and> build exampleOps Graph_new = Inr exampleGraph
   \<and> dijkstra exampleGraph ''A'' ''C''
       = ([Visit ''A'' [''A''] None (Some [(''A'', Fin 0), (''B'', Infinity), (''C'', Infinity)]),
           Visit ''B'' [''A'', ''B''] None (Some [(''A'', Fin 0), (''B'', Fin 10), (''C'', Fin 10)]),
           Visit ''C'' [''A'', ''B'', ''C''] None (Some [(''A'', Fin 0), (''B'', Fin 10), (''C'', Fin 10)]),
           Done [''A'', ''C''] [''A'', ''B'', ''C''] (Some (Fin 10))], Returned)"
proof (intro conjI impI)
  assume "neighbors_known g \<and> nonneg_weights g \<and> exact_sums g startId \<and> is_path g startId p0 endId"
  then show "\<exists>evs vis p. dijkstra g startId endId
                      = (evs @ [Done (startId # map fst p) vis (Some (Fin (path_weight p)))], Returned)
          \<and> is_path g startId p endId
          \<and> (\<forall>q. is_path g startId q endId \<longrightarrow> path_weight p \<le> path_weight q)"
    using dijkstra_correct by blast
next
  show "build exampleOps Graph_new = Inr exampleGraph" by (rule build_exampleOps)
next
  show "dijkstra exampleGraph ''A'' ''C''
       = ([Visit ''A'' [''A''] None (Some [(''A'', Fin 0), (''B'', Infinity), (''C'', Infinity)]),
           Visit ''B'' [''A'', ''B''] None (Some [(''A'', Fin 0), (''B'', Fin 10), (''C'', Fin 10)]),
           Visit ''C'' [''A'', ''B'', ''C''] None (Some [(''A'', Fin 0), (''B'', Fin 10), (''C'', Fin 10)]),
           Done [''A'', ''C''] [''A'', ''B'', ''C''] (Some (Fin 10))], Returned)"
    by code_simp
qed

theorem dijkstra_inexact_sum_counterexample:
  "build oddOps Graph_new = Inr oddGraph
   \<and> is_path oddGraph ''A'' [(''B'', 2 ^ 53 + 2), (''C'', 1)] ''C''
   \<and> path_weight [(''B'', 2 ^ 53 + 2), (''C'', 1)] = 2 ^ 53 + 3
   \<and> dijkstra oddGraph ''A'' ''C''
       = ([Visit ''A'' [''A''] None (Some [(''A'', Fin 0), (''B'', Infinity), (''C'', Infinity)]),
           Visit ''B'' [''A'', ''B''] None (Some [(''A'', Fin 0), (''B'', Fin (2 ^ 53 + 2)), (''C'', Infinity)]),
           Visit ''C'' [''A'', ''B'', ''C''] None
             (Some [(''A'', Fin 0), (''B'', Fin (2 ^ 53 + 2)), (''C'', Fin (2 ^ 53 + 4))]),
           Done [''A'', ''B'', ''C''] [''A'', ''B'', ''C''] (Some (Fin (2 ^ 53 + 4)))], Returned)
   \<and> build hugeOps Graph_new = Inr hugeGraph
   \<and> is_path hugeGraph ''A'' [(''B'', 2 ^ 1023), (''C'', 2 ^ 1023)] ''C''
   \<and> dijkstra hugeGraph ''A'' ''C''
       = ([Visit ''A'' [''A''] None (Some [(''A'', Fin 0), (''B'', Infinity), (''C'', Infinity)]),
           Visit ''B'' [''A'', ''B''] None (Some [(''A'', Fin 0), (''B'', Fin (2 ^ 1023)), (''C'', Infinity)]),
           Done [] [''A'', ''B''] (Some Infinity)], Returned)"
proof (intro conjI)
  show "build oddOps Graph_new = Inr oddGraph" by code_simp
  show "is_path oddGraph ''A'' [(''B'', 2 ^ 53 + 2), (''C'', 1)] ''C''" by code_simp
  show "path_weight [(''B'', 2 ^ 53 + 2), (''C'', 1)] = 2 ^ 53 + 3" by (simp add: path_weight_def)
  show "dijkstra oddGraph ''A'' ''C''
       = ([Visit ''A'' [''A''] None (Some [(''A'', Fin 0), (''B'', Infinity), (''C'', Infinity)]),
           Visit ''B'' [''A'', ''B''] None (Some [(''A'', Fin 0), (''B'', Fin (2 ^ 53 + 2)), (''C'', Infinity)]),
           Visit ''C'' [''A'', ''B'', ''C''] None
             (Some [(''A'', Fin 0), (''B'', Fin (2 ^ 53 + 2)), (''C'', Fin (2 ^ 53 + 4))]),
           Done [''A'', ''B'', ''C''] [''A'', ''B'', ''C''] (Some (Fin (2 ^ 53 + 4)))], Returned)"
    by code_simp
  show "build hugeOps Graph_new = Inr hugeGraph"
    by (simp add: hugeOps_def hugeGraph_def Graph_new_def addNode_def addEdge_def Map_has_def
          Map_get_def Math_round_numeral Let_def)
  show "is_path hugeGraph ''A'' [(''B'', 2 ^ 1023), (''C'', 2 ^ 1023)] ''C''" by code_simp
  show "dijkstra hugeGraph ''A'' ''C''
       = ([Visit ''A'' [''A''] None (Some [(''A'', Fin 0), (''B'', Infinity), (''C'', Infinity)]),
           Visit ''B'' [''A'', ''B''] None (Some [(''A'', Fin 0), (''B'', Fin (2 ^ 1023)), (''C'', Infinity)]),
           Done [] [''A'', ''B''] (Some Infinity)], Returned)"
    by code_simp
qed

theorem dijkstra_shortest_witness:
  "is_path exampleGraph ''A'' [(''B'', 10), (''C'', 5)] ''C''
   \<and> snd (dijkstra exampleGraph ''A'' ''C'') = Returned
   \<and> last (fst (dijkstra exampleGraph ''A'' ''C'')) = Done [''A'', ''C''] [''A'', ''B'', ''C''] (Some (Fin 10))
   \<and> is_path exampleGraph ''A'' [(''C'', 10)] ''C''
   \<and> path_weight [(''C'', 10)] = 10
   \<and> (10 :: int) \<le> path_weight [(''B'', 10), (''C'', 5)]"
proof -
  have k: "neighbors_known exampleGraph"
    using build_exampleOps by (rule build_neighbors_known)
  have "nonneg_weights Graph_new" by (simp add: nonneg_weights_def)
  moreover have "\<forall>w \<in> set (given_weights exampleOps). - 1 / 2 \<le> w" by (simp add: exampleOps_def)
  ultimately have n: "nonneg_weights exampleGraph"
    using build_nonneg [OF build_exampleOps] by blast
  have pB: "is_path exampleGraph ''A'' [(''B'', 10)] ''B''" by code_simp
  have pC: "is_path exampleGraph ''A'' [(''C'', 10)] ''C''" by code_simp
  have x: "exact_sums exampleGraph ''A''"
  proof (rule exact_sums_bounded [OF n])
    fix u p e
    assume p: "is_path exampleGraph ''A'' p u"
      and m: "\<forall>q. is_path exampleGraph ''A'' q u \<longrightarrow> path_weight p \<le> path_weight q"
      and e: "e \<in> set (getNeighbors exampleGraph u)"
    from e have u: "u = ''A'' \<or> u = ''B'' \<or> u = ''C''" and w: "snd e \<le> 10"
      by (auto simp: exampleGraph_def getNeighbors_def Map_get_def split: if_splits)
    have "path_weight p \<le> 10"
    proof -
      from u consider "u = ''A''" | "u = ''B''" | "u = ''C''" by blast
      then show ?thesis
      proof cases
        case 1
        have "is_path exampleGraph ''A'' [] ''A''" by simp
        with m 1 have "path_weight p \<le> path_weight []" by blast
        then show ?thesis by simp
      next
        case 2
        with m pB have "path_weight p \<le> path_weight [(''B'', 10)]" by blast
        then show ?thesis by simp
      next
        case 3
        with m pC have "path_weight p \<le> path_weight [(''C'', 10)]" by blast
        then show ?thesis by simp
      qed
    qed
    with w show "path_weight p + snd e \<le> 2 ^ 53" by simp
  qed
  have h: "is_path exampleGraph ''A'' [(''B'', 10), (''C'', 5)] ''C''"
    by code_simp
  note t = dijkstra_shortest [of exampleGraph "''A''" "[(''B'', 10), (''C'', 5)]" "''C''"]
  from t k n x h obtain evs vis p where
    r: "dijkstra exampleGraph ''A'' ''C''
          = (evs @ [Done (''A'' # map fst p) vis (Some (Fin (path_weight p)))], Returned)"
    and m: "\<forall>q. is_path exampleGraph ''A'' q ''C'' \<longrightarrow> path_weight p \<le> path_weight q"
    by blast
  from t have v: "dijkstra exampleGraph ''A'' ''C''
       = ([Visit ''A'' [''A''] None (Some [(''A'', Fin 0), (''B'', Infinity), (''C'', Infinity)]),
           Visit ''B'' [''A'', ''B''] None (Some [(''A'', Fin 0), (''B'', Fin 10), (''C'', Fin 10)]),
           Visit ''C'' [''A'', ''B'', ''C''] None (Some [(''A'', Fin 0), (''B'', Fin 10), (''C'', Fin 10)])]
          @ [Done [''A'', ''C''] [''A'', ''B'', ''C''] (Some (Fin 10))], Returned)"
    by simp
  from r v have "path_weight p = 10" by simp
  with m h have "(10 :: int) \<le> path_weight [(''B'', 10), (''C'', 5)]" by auto
  with h v pC show ?thesis by simp
qed

end
